theory Spec2Isabelle
  imports Main "HOL-Library.Word" "HOL-Library.AList" "HOL-Library.Multiset"
begin

unbundle bit_operations_syntax

section \<open>Go strings and slices\<close>

text \<open>
  A Go string is a sequence of bytes, modelled as \<^typ>\<open>string\<close>.  The helpers of package
  \<open>strings\<close> that the sources call are written as Go's library defines them, on lengths and
  sub-slices.  A slice expression \<open>s[lo:hi]\<close> panics unless \<open>0 \<le> lo \<le> hi \<le> len(s)\<close>; the
  panic is the value \<open>None\<close>.
\<close>

definition HasPrefix :: "string \<Rightarrow> string \<Rightarrow> bool" where
  "HasPrefix s prefix = (length prefix \<le> length s \<and> take (length prefix) s = prefix)"

definition HasSuffix :: "string \<Rightarrow> string \<Rightarrow> bool" where
  "HasSuffix s suffix =
     (length suffix \<le> length s \<and> drop (length s - length suffix) s = suffix)"

definition slice :: "string \<Rightarrow> int \<Rightarrow> int \<Rightarrow> string option" where
  "slice s lo hi =
     (if 0 \<le> lo \<and> lo \<le> hi \<and> hi \<le> int (length s)
      then Some (drop (nat lo) (take (nat hi) s)) else None)"

fun Join :: "string list \<Rightarrow> string \<Rightarrow> string" where
  "Join [] sep = []"
| "Join [x] sep = x"
| "Join (x # y # ys) sep = x @ sep @ Join (y # ys) sep"

section \<open>CRC-32 and hexadecimal formatting (hash/crc32, fmt)\<close>

text \<open>
  \<open>PlanPIndexName\<close> hashes with \<open>crc32.NewIEEE()\<close> and prints with \<open>fmt.Sprintf("%x", _)\<close>.
  Both belong to Go's standard library; they are written here as the library defines them:
  the table entry of \<open>simpleMakeTable\<close> (eight conditional shifts with the reversed
  polynomial), the byte loop of \<open>simpleUpdate\<close>, and the complement \<open>^crc\<close>, which Go
  defines on \<open>uint32\<close> as the exclusive or with the all-ones word.
\<close>

definition IEEE :: "32 word" where
  "IEEE = 0xedb88320"

definition crc_step :: "32 word \<Rightarrow> 32 word \<Rightarrow> 32 word" where
  "crc_step poly crc =
     (if crc AND 1 = 1 then drop_bit 1 crc XOR poly else drop_bit 1 crc)"

fun crc_shift :: "32 word \<Rightarrow> 32 word \<Rightarrow> nat \<Rightarrow> 32 word" where
  "crc_shift poly crc 0 = crc"
| "crc_shift poly crc (Suc j) = crc_shift poly (crc_step poly crc) j"

definition simpleMakeTable :: "32 word \<Rightarrow> 32 word \<Rightarrow> 32 word" where
  "simpleMakeTable poly i = crc_shift poly i 8"

fun simpleUpdate_loop :: "32 word \<Rightarrow> string \<Rightarrow> 32 word" where
  "simpleUpdate_loop crc [] = crc"
| "simpleUpdate_loop crc (v # p) =
     simpleUpdate_loop
       (simpleMakeTable IEEE ((crc AND 0xFF) XOR of_char v) XOR drop_bit 8 crc) p"

definition simpleUpdate :: "32 word \<Rightarrow> string \<Rightarrow> 32 word" where
  "simpleUpdate crc p = simpleUpdate_loop (crc XOR 0xFFFFFFFF) p XOR 0xFFFFFFFF"

definition ChecksumIEEE :: "string \<Rightarrow> 32 word" where
  "ChecksumIEEE p = simpleUpdate 0 p"

definition hex_digit :: "nat \<Rightarrow> char" where
  "hex_digit d = ''0123456789abcdef'' ! d"

function fmt_x :: "nat \<Rightarrow> string" where
  "fmt_x n = (if n < 16 then [hex_digit n] else fmt_x (n div 16) @ [hex_digit (n mod 16)])"
  by pat_completeness auto
termination
  by (relation "measure id") auto

declare fmt_x.simps [simp del]

lemma simpleMakeTable_unrolled:
  "simpleMakeTable poly i =
   crc_step poly (crc_step poly (crc_step poly (crc_step poly
     (crc_step poly (crc_step poly (crc_step poly (crc_step poly i)))))))"
  unfolding simpleMakeTable_def by (simp add: eval_nat_numeral)

lemmas crc_eval =
  ChecksumIEEE_def simpleUpdate_def simpleMakeTable_unrolled crc_step_def IEEE_def

lemmas hex_eval = fmt_x.simps hex_digit_def

text \<open>The standard check value of CRC-32/IEEE, and the checksum of the empty string.\<close>

lemma ChecksumIEEE_check_value: "ChecksumIEEE ''123456789'' = 0xcbf43926"
  by (simp add: crc_eval)

lemma ChecksumIEEE_empty: "ChecksumIEEE [] = 0"
  by (simp add: crc_eval)

lemma fmt_x_check_value: "fmt_x (unat (ChecksumIEEE ''123456789'')) = ''cbf43926''"
  by (simp add: ChecksumIEEE_check_value hex_eval)

section \<open>The planner (planner.go)\<close>

subsection \<open>Data model\<close>

text \<open>
  The structs are the ones the planner reads and writes; fields that no modelled function
  touches are left out.  A Go map is an association list with distinct keys, read with
  \<^const>\<open>map_of\<close> and written with \<^const>\<open>AList.update\<close>; its order stands for one of the
  iteration orders Go may choose.  A nil map and an empty map read alike (length zero, every
  lookup missing) and both are the empty list.
\<close>

record PlanParams =
  MaxPartitionsPerPIndex :: int
  NumReplicas :: int
  PlanFrozen :: bool

record IndexDef =
  Type :: string
  Name :: string
  UUID :: string
  Params :: string
  SourceType :: string
  SourceName :: string
  SourceUUID :: string
  SourceParams :: string
  PlanParams :: PlanParams

record PlanPIndexNode =
  CanRead :: bool
  CanWrite :: bool
  Priority :: int

record PlanPIndex =
  Name :: string
  UUID :: string
  IndexType :: string
  IndexName :: string
  IndexUUID :: string
  IndexParams :: string
  SourceType :: string
  SourceName :: string
  SourceUUID :: string
  SourceParams :: string
  SourcePartitions :: string
  Nodes :: "(string \<times> PlanPIndexNode) list"

record PlanPIndexes =
  UUID :: string
  PlanPIndexes :: "(string \<times> PlanPIndex) list"
  ImplVersion :: string
  Warnings :: "(string \<times> string list) list"

text \<open>
  An entry of the registry \<open>PIndexImplTypes\<close>.  Its fields are functions; the planner only
  asks whether \<open>New\<close> and \<open>Open\<close> are set.
\<close>

record PIndexImplType =
  New_set :: bool
  Open_set :: bool

record NodePlanParam =
  np_CanRead :: bool
  np_CanWrite :: bool

text \<open>
  What the planner calls outside its own file.  \<open>PIndexImplTypes\<close> is the process-wide
  registry (a key may be registered with a nil entry); \<open>DataSourcePartitions\<close> asks the data
  source for its partitions or fails; \<open>NewUUID\<close> draws random digits, so the model threads a
  counter and reads the \<open>n\<close>-th draw; \<open>GetNodePlanParam\<close> looks up the per-node override of
  an index definition for a node and a partition name; \<open>PlanNextMap\<close> is the placement
  library: from the index definition, the partitions to place, the previous plan and the
  node definitions (the arguments \<open>BlancePlanPIndexes\<close> and \<open>CalcNodesLayout\<close> derive for
  it) it returns, for each partition name, the nodes in state primary and in state replica,
  and a list of warnings.  The type \<open>'nd\<close> of node definitions is not inspected.
\<close>

record 'nd Externals =
  PIndexImplTypes :: "string \<Rightarrow> PIndexImplType option option"
  DataSourcePartitions :: "IndexDef \<Rightarrow> string \<Rightarrow> string + string list"
  NewUUID :: "nat \<Rightarrow> string"
  GetNodePlanParam :: "IndexDef \<Rightarrow> string \<Rightarrow> string \<Rightarrow> NodePlanParam option"
  PlanNextMap :: "IndexDef \<Rightarrow> (string \<times> PlanPIndex) list \<Rightarrow> PlanPIndexes option \<Rightarrow> 'nd
                  \<Rightarrow> (string \<times> string list \<times> string list) list \<times> string list"

text \<open>
  Modelled from the spec: \<open>NewPlanPIndexes\<close> is not among the sources.  The stored value is
  \<open>{uuid, implVersion, planPIndexes: {name \<rightarrow> PlanPIndex}, warnings: {indexName \<rightarrow> [string]}}\<close>;
  a new one has a fresh UUID, the given version, and no entries.
\<close>

definition NewPlanPIndexes :: "'nd Externals \<Rightarrow> string \<Rightarrow> nat \<Rightarrow> PlanPIndexes \<times> nat" where
  "NewPlanPIndexes ext version rng =
     (\<lparr>PlanPIndexes.UUID = NewUUID ext rng, PlanPIndexes = [], ImplVersion = version,
       Warnings = []\<rparr>, Suc rng)"

subsection \<open>Naming and splitting\<close>

definition PlanPIndexName :: "IndexDef \<Rightarrow> string \<Rightarrow> string" where
  "PlanPIndexName indexDef sourcePartitions =
     IndexDef.Name indexDef @ ''_'' @ IndexDef.UUID indexDef @ ''_'' @
     fmt_x (unat (ChecksumIEEE sourcePartitions))"

text \<open>
  The state of one run of \<open>SplitIndexDefIntoPlanPIndexes\<close>: the plan it writes into, the map
  it returns, and the counter of random draws.  The closure \<open>addPlanPIndex\<close> stores one new
  object under its name in both maps.
\<close>

record split_state =
  planPIndexesOut :: PlanPIndexes
  planPIndexesForIndex :: "(string \<times> PlanPIndex) list"
  rng :: nat

definition addPlanPIndex ::
  "'nd Externals \<Rightarrow> IndexDef \<Rightarrow> string list \<Rightarrow> split_state \<Rightarrow> split_state" where
  "addPlanPIndex ext indexDef sourcePartitionsCurr st =
     (let sourcePartitions = Join sourcePartitionsCurr '','';
          planPIndex = \<lparr>
            PlanPIndex.Name = PlanPIndexName indexDef sourcePartitions,
            UUID = NewUUID ext (rng st),
            IndexType = IndexDef.Type indexDef,
            IndexName = IndexDef.Name indexDef,
            IndexUUID = IndexDef.UUID indexDef,
            IndexParams = IndexDef.Params indexDef,
            SourceType = IndexDef.SourceType indexDef,
            SourceName = IndexDef.SourceName indexDef,
            SourceUUID = IndexDef.SourceUUID indexDef,
            SourceParams = IndexDef.SourceParams indexDef,
            SourcePartitions = sourcePartitions,
            Nodes = []\<rparr>
      in \<lparr>planPIndexesOut = (planPIndexesOut st)\<lparr>PlanPIndexes :=
              AList.update (PlanPIndex.Name planPIndex) planPIndex
                (PlanPIndexes (planPIndexesOut st))\<rparr>,
          planPIndexesForIndex =
              AList.update (PlanPIndex.Name planPIndex) planPIndex (planPIndexesForIndex st),
          rng = Suc (rng st)\<rparr>)"

text \<open>
  The loop over \<open>sourcePartitionsArr\<close>; it returns the partitions collected and not yet
  emitted, with the state.
\<close>

fun split_loop ::
  "'nd Externals \<Rightarrow> IndexDef \<Rightarrow> int \<Rightarrow> string list \<Rightarrow> string list \<Rightarrow> split_state
   \<Rightarrow> string list \<times> split_state" where
  "split_loop ext indexDef maxPartitionsPerPIndex [] sourcePartitionsCurr st =
     (sourcePartitionsCurr, st)"
| "split_loop ext indexDef maxPartitionsPerPIndex (sourcePartition # rest)
      sourcePartitionsCurr st =
     (let curr = sourcePartitionsCurr @ [sourcePartition] in
      if maxPartitionsPerPIndex > 0 \<and> int (length curr) \<ge> maxPartitionsPerPIndex
      then split_loop ext indexDef maxPartitionsPerPIndex rest []
             (addPlanPIndex ext indexDef curr st)
      else split_loop ext indexDef maxPartitionsPerPIndex rest curr st)"

definition SplitIndexDefIntoPlanPIndexes ::
  "'nd Externals \<Rightarrow> IndexDef \<Rightarrow> string \<Rightarrow> PlanPIndexes \<Rightarrow> nat
   \<Rightarrow> string + split_state" where
  "SplitIndexDefIntoPlanPIndexes ext indexDef server planPIndexesOut0 rng0 =
     (case DataSourcePartitions ext indexDef server of
        Inl err \<Rightarrow> Inl (''planner: could not get partitions'')
      | Inr sourcePartitionsArr \<Rightarrow>
          (let (sourcePartitionsCurr, st) =
                 split_loop ext indexDef (MaxPartitionsPerPIndex (PlanParams indexDef))
                   sourcePartitionsArr []
                   \<lparr>planPIndexesOut = planPIndexesOut0, planPIndexesForIndex = [],
                    rng = rng0\<rparr>
           in if length sourcePartitionsCurr > 0 \<or> length (planPIndexesForIndex st) \<le> 0
              then Inr (addPlanPIndex ext indexDef sourcePartitionsCurr st)
              else Inr st))"

text \<open>
  The same loop, recording only the arguments of the calls of \<open>addPlanPIndex\<close> in order:
  the groups of source partitions.  \<open>split_chunks_run\<close> below shows that the state of the
  real loop is these calls applied in turn.
\<close>

fun chunk_loop :: "int \<Rightarrow> string list \<Rightarrow> string list \<Rightarrow> string list list \<times> string list" where
  "chunk_loop maxPartitionsPerPIndex [] sourcePartitionsCurr = ([], sourcePartitionsCurr)"
| "chunk_loop maxPartitionsPerPIndex (sourcePartition # rest) sourcePartitionsCurr =
     (let curr = sourcePartitionsCurr @ [sourcePartition] in
      if maxPartitionsPerPIndex > 0 \<and> int (length curr) \<ge> maxPartitionsPerPIndex
      then (let (cs, r) = chunk_loop maxPartitionsPerPIndex rest [] in (curr # cs, r))
      else chunk_loop maxPartitionsPerPIndex rest curr)"

definition split_chunks :: "int \<Rightarrow> string list \<Rightarrow> string list list" where
  "split_chunks maxPartitionsPerPIndex sourcePartitionsArr =
     (let (cs, r) = chunk_loop maxPartitionsPerPIndex sourcePartitionsArr []
      in if length r > 0 \<or> cs = [] then cs @ [r] else cs)"

subsection \<open>Placement and the planning loop\<close>

text \<open>
  \<open>BlancePlanPIndexes\<close> hands the partitions of one index to the placement library and
  writes the answer back: for each partition name in the answer it takes the object
  \<open>planPIndexesForIndex[name]\<close> and replaces its node map, first the primary nodes with
  priority 0, then the \<open>i\<close>-th replica node with priority \<open>i + 1\<close>.  The object is the one
  \<open>addPlanPIndex\<close> stored in both maps, so the assignment shows in the plan as well; a name
  the map does not hold gives a nil pointer, and the dereference panics (\<open>None\<close>).
\<close>

definition assign_node ::
  "'nd Externals \<Rightarrow> IndexDef \<Rightarrow> string \<Rightarrow> (string \<times> PlanPIndexNode) list \<Rightarrow> string \<times> int
   \<Rightarrow> (string \<times> PlanPIndexNode) list" where
  "assign_node ext indexDef planPIndexName nodes np =
     (let nodeUUID = fst np;
          nodePlanParam = GetNodePlanParam ext indexDef nodeUUID planPIndexName;
          canRead = (case nodePlanParam of None \<Rightarrow> True | Some x \<Rightarrow> np_CanRead x);
          canWrite = (case nodePlanParam of None \<Rightarrow> True | Some x \<Rightarrow> np_CanWrite x)
      in AList.update nodeUUID
           \<lparr>CanRead = canRead, CanWrite = canWrite, Priority = snd np\<rparr> nodes)"

definition blance_nodes ::
  "'nd Externals \<Rightarrow> IndexDef \<Rightarrow> string \<Rightarrow> string list \<Rightarrow> string list
   \<Rightarrow> (string \<times> PlanPIndexNode) list" where
  "blance_nodes ext indexDef planPIndexName primary replica =
     foldl (assign_node ext indexDef planPIndexName)
       (foldl (assign_node ext indexDef planPIndexName) [] (map (\<lambda>n. (n, 0)) primary))
       (zip replica (map (\<lambda>i. int i + 1) [0..<length replica]))"

fun blance_apply ::
  "'nd Externals \<Rightarrow> IndexDef \<Rightarrow> (string \<times> string list \<times> string list) list \<Rightarrow> split_state
   \<Rightarrow> split_state option" where
  "blance_apply ext indexDef [] st = Some st"
| "blance_apply ext indexDef ((planPIndexName, primary, replica) # others) st =
     (case map_of (planPIndexesForIndex st) planPIndexName of
        None \<Rightarrow> None
      | Some planPIndex \<Rightarrow>
          (let planPIndex' = planPIndex\<lparr>Nodes :=
                 blance_nodes ext indexDef planPIndexName primary replica\<rparr>
           in blance_apply ext indexDef others
                (st\<lparr>planPIndexesOut := (planPIndexesOut st)\<lparr>PlanPIndexes :=
                        AList.update planPIndexName planPIndex'
                          (PlanPIndexes (planPIndexesOut st))\<rparr>,
                    planPIndexesForIndex :=
                        AList.update planPIndexName planPIndex' (planPIndexesForIndex st)\<rparr>)))"

definition BlancePlanPIndexes ::
  "'nd Externals \<Rightarrow> IndexDef \<Rightarrow> split_state \<Rightarrow> PlanPIndexes option \<Rightarrow> 'nd
   \<Rightarrow> (split_state \<times> string list) option" where
  "BlancePlanPIndexes ext indexDef st planPIndexesPrev nodeDefs =
     (let (blanceNextMap, warnings) =
            PlanNextMap ext indexDef (planPIndexesForIndex st) planPIndexesPrev nodeDefs
      in case blance_apply ext indexDef blanceNextMap st of
           None \<Rightarrow> None
         | Some st' \<Rightarrow> Some (st', warnings))"

text \<open>
  The body of the loop of \<open>CalcPlan\<close> for one index definition, on the plan under
  construction and the counter of random draws.  The three ways out are the ones of the
  source, in its order: the frozen copy, the skip of a type that cannot be instantiated,
  and split with placement (a failed split is logged and planning goes on).
\<close>

definition copy_frozen ::
  "IndexDef \<Rightarrow> (string \<times> PlanPIndex) list \<Rightarrow> (string \<times> PlanPIndex) list
   \<Rightarrow> (string \<times> PlanPIndex) list" where
  "copy_frozen indexDef prev acc =
     foldl (\<lambda>acc kp.
              if IndexName (snd kp) = IndexDef.Name indexDef \<and>
                 IndexUUID (snd kp) = IndexDef.UUID indexDef
              then AList.update (fst kp) (snd kp) acc else acc) acc prev"

definition CalcPlan_indexDef ::
  "'nd Externals \<Rightarrow> 'nd \<Rightarrow> PlanPIndexes option \<Rightarrow> string \<Rightarrow> IndexDef
   \<Rightarrow> PlanPIndexes \<times> nat \<Rightarrow> (PlanPIndexes \<times> nat) option" where
  "CalcPlan_indexDef ext nodeDefs planPIndexesPrev server indexDef st =
     (if PlanFrozen (PlanParams indexDef) then
        (case planPIndexesPrev of
           None \<Rightarrow> Some st
         | Some prev \<Rightarrow>
             Some ((fst st)\<lparr>PlanPIndexes :=
                      copy_frozen indexDef (PlanPIndexes prev) (PlanPIndexes (fst st))\<rparr>,
                   snd st))
      else
        (case PIndexImplTypes ext (IndexDef.Type indexDef) of
           None \<Rightarrow> Some st
         | Some None \<Rightarrow> Some st
         | Some (Some pindexImplType) \<Rightarrow>
             if \<not> New_set pindexImplType \<or> \<not> Open_set pindexImplType then Some st
             else
               (case SplitIndexDefIntoPlanPIndexes ext indexDef server (fst st) (snd st) of
                  Inl err \<Rightarrow> Some st
                | Inr sst \<Rightarrow>
                    (case BlancePlanPIndexes ext indexDef sst planPIndexesPrev nodeDefs of
                       None \<Rightarrow> None
                     | Some (sst', warnings) \<Rightarrow>
                         Some ((planPIndexesOut sst')\<lparr>Warnings :=
                                  AList.update (IndexDef.Name indexDef) warnings
                                    (Warnings (planPIndexesOut sst'))\<rparr>,
                               rng sst')))))"

fun CalcPlan_loop ::
  "'nd Externals \<Rightarrow> 'nd \<Rightarrow> PlanPIndexes option \<Rightarrow> string \<Rightarrow> IndexDef list
   \<Rightarrow> PlanPIndexes \<times> nat \<Rightarrow> (PlanPIndexes \<times> nat) option" where
  "CalcPlan_loop ext nodeDefs planPIndexesPrev server [] st = Some st"
| "CalcPlan_loop ext nodeDefs planPIndexesPrev server (indexDef # others) st =
     (case CalcPlan_indexDef ext nodeDefs planPIndexesPrev server indexDef st of
        None \<Rightarrow> None
      | Some st' \<Rightarrow> CalcPlan_loop ext nodeDefs planPIndexesPrev server others st')"

text \<open>
  \<open>CalcPlan\<close> on the index definitions in the order the map iteration yields them.  The
  result is \<open>None\<close> when the run panics, and otherwise the returned plan (nil when an input
  is nil) with the counter.
\<close>

definition CalcPlan ::
  "'nd Externals \<Rightarrow> (string \<times> IndexDef) list option \<Rightarrow> 'nd option \<Rightarrow> PlanPIndexes option
   \<Rightarrow> string \<Rightarrow> string \<Rightarrow> nat \<Rightarrow> (PlanPIndexes option \<times> nat) option" where
  "CalcPlan ext indexDefs nodeDefs planPIndexesPrev version server rng0 =
     (case indexDefs of
        None \<Rightarrow> Some (None, rng0)
      | Some defs \<Rightarrow>
          (case nodeDefs of
             None \<Rightarrow> Some (None, rng0)
           | Some nds \<Rightarrow>
               (case CalcPlan_loop ext nds planPIndexesPrev server (map snd defs)
                       (NewPlanPIndexes ext version rng0) of
                  None \<Rightarrow> None
                | Some st \<Rightarrow> Some (Some (fst st), snd st))))"

subsection \<open>Sample inputs\<close>

text \<open>
  A registry with an engine type and the alias type, a data source that reports a given
  list of partitions, and a placement that puts every partition on one node.
\<close>

definition demo_plan :: PlanPIndexes where
  "demo_plan = \<lparr>PlanPIndexes.UUID = ''p0'', PlanPIndexes = [], ImplVersion = ''1.0.0'',
                 Warnings = []\<rparr>"

definition demo_indexDef :: "int \<Rightarrow> bool \<Rightarrow> IndexDef" where
  "demo_indexDef m frozen =
     \<lparr>IndexDef.Type = ''vlite'', Name = ''i'', UUID = ''U'', Params = [],
      SourceType = ''couchbase'', SourceName = ''default'', SourceUUID = [], SourceParams = [],
      PlanParams = \<lparr>MaxPartitionsPerPIndex = m, NumReplicas = 0, PlanFrozen = frozen\<rparr>\<rparr>"

definition demo_partitions :: "string list" where
  "demo_partitions = [''0'', ''1'', ''2'', ''3'', ''4''] @ [''5'', ''6'', ''7'', ''8'', ''9'']"

definition demo_ext :: "string list \<Rightarrow> unit Externals" where
  "demo_ext ps =
     \<lparr>PIndexImplTypes = (\<lambda>t. if t = ''vlite''
                              then Some (Some \<lparr>New_set = True, Open_set = True\<rparr>)
                              else if t = ''alias''
                              then Some (Some \<lparr>New_set = False, Open_set = False\<rparr>)
                              else None),
      DataSourcePartitions = (\<lambda>d server. Inr ps),
      NewUUID = (\<lambda>n. fmt_x n),
      GetNodePlanParam = (\<lambda>d node name. None),
      PlanNextMap = (\<lambda>d forIndex prev nd. (map (\<lambda>kp. (fst kp, [''N1''], [])) forIndex, []))\<rparr>"

subsection \<open>Properties of the split\<close>

lemma chunk_loop_props:
  assumes "0 < m" "int (length cur) < m" "chunk_loop m ps cur = (cs, r)"
  shows "concat cs @ r = cur @ ps \<and> (\<forall>c\<in>set cs. int (length c) = m) \<and> int (length r) < m"
  using assms
proof (induction ps arbitrary: cur cs r)
  case Nil
  then show ?case by simp
next
  case (Cons p ps)
  show ?case
  proof (cases "int (length (cur @ [p])) \<ge> m")
    case True
    obtain cs' r' where rec: "chunk_loop m ps [] = (cs', r')"
      by (cases "chunk_loop m ps []")
    from Cons.prems True rec have cs: "cs = (cur @ [p]) # cs'" and r: "r = r'"
      by (simp_all add: Let_def)
    from Cons.prems(1) have "int (length ([]::string list)) < m" by simp
    from Cons.IH [OF Cons.prems(1) this rec]
    have ih: "concat cs' @ r' = ps" "\<forall>c\<in>set cs'. int (length c) = m" "int (length r') < m"
      by simp_all
    from True Cons.prems(2) have len: "int (length (cur @ [p])) = m" by simp
    show ?thesis using ih len cs r by simp
  next
    case False
    with Cons.prems have rec: "chunk_loop m ps (cur @ [p]) = (cs, r)"
      by (simp add: Let_def)
    from False have "int (length (cur @ [p])) < m" by simp
    from Cons.IH [OF Cons.prems(1) this rec] show ?thesis by simp
  qed
qed

lemma chunk_loop_unbounded:
  "m \<le> 0 \<Longrightarrow> chunk_loop m ps cur = ([], cur @ ps)"
  by (induction ps arbitrary: cur) (simp_all add: Let_def)

lemma split_chunks_unbounded: "m \<le> 0 \<Longrightarrow> split_chunks m ps = [ps]"
  by (simp add: split_chunks_def chunk_loop_unbounded)

lemma split_chunks_empty: "split_chunks m [] = [[]]"
  by (simp add: split_chunks_def)

lemma split_chunks_bounded:
  assumes "0 < m"
  shows "concat (split_chunks m ps) = ps"
    and "\<forall>c\<in>set (butlast (split_chunks m ps)). int (length c) = m"
    and "split_chunks m ps \<noteq> []"
    and "int (length (last (split_chunks m ps))) \<le> m"
    and "ps \<noteq> [] \<Longrightarrow> last (split_chunks m ps) \<noteq> []"
proof -
  obtain cs r where cl: "chunk_loop m ps [] = (cs, r)"
    by (cases "chunk_loop m ps []")
  from assms have "int (length ([]::string list)) < m" by simp
  from chunk_loop_props [OF assms this cl]
  have p: "concat cs @ r = ps" "\<forall>c\<in>set cs. int (length c) = m" "int (length r) < m"
    by simp_all
  have sc: "split_chunks m ps = (if length r > 0 \<or> cs = [] then cs @ [r] else cs)"
    by (simp add: split_chunks_def cl)
  show "concat (split_chunks m ps) = ps" using p sc by auto
  show "\<forall>c\<in>set (butlast (split_chunks m ps)). int (length c) = m"
    using p sc by (auto simp: butlast_append dest: in_set_butlastD)
  show "split_chunks m ps \<noteq> []" using sc by auto
  show "int (length (last (split_chunks m ps))) \<le> m"
    using p sc assms by (auto simp: last_in_set dest!: bspec [where x = "last cs"])
  show "last (split_chunks m ps) \<noteq> []" if "ps \<noteq> []"
  proof (cases "length r > 0")
    case True
    then show ?thesis using sc by simp
  next
    case False
    then have r: "r = []" by simp
    with p(1) that have ne: "cs \<noteq> []" by auto
    then have "last cs \<in> set cs" by simp
    with p(2) assms have "last cs \<noteq> []" by fastforce
    then show ?thesis using sc r ne by simp
  qed
qed

lemma split_loop_run:
  "split_loop ext d m ps cur st =
     (snd (chunk_loop m ps cur),
      foldl (\<lambda>s c. addPlanPIndex ext d c s) st (fst (chunk_loop m ps cur)))"
  by (induction ps arbitrary: cur st) (simp_all add: Let_def split: prod.splits)

lemma update_not_Nil: "AList.update k v al \<noteq> []"
  by (cases al) auto

lemma forIndex_add_not_Nil: "planPIndexesForIndex (addPlanPIndex ext d c st) \<noteq> []"
  by (simp add: addPlanPIndex_def Let_def update_not_Nil)

lemma forIndex_foldl_Nil:
  "planPIndexesForIndex (foldl (\<lambda>s c. addPlanPIndex ext d c s) st cs) = []
   \<longleftrightarrow> cs = [] \<and> planPIndexesForIndex st = []"
  by (induction cs rule: rev_induct) (simp_all add: forIndex_add_not_Nil)

lemma Split_run:
  assumes "DataSourcePartitions ext d server = Inr ps"
  shows "SplitIndexDefIntoPlanPIndexes ext d server out rng0 =
         Inr (foldl (\<lambda>s c. addPlanPIndex ext d c s)
                \<lparr>planPIndexesOut = out, planPIndexesForIndex = [], rng = rng0\<rparr>
                (split_chunks (MaxPartitionsPerPIndex (PlanParams d)) ps))"
  using assms
  by (auto simp: SplitIndexDefIntoPlanPIndexes_def split_loop_run split_chunks_def Let_def
        forIndex_foldl_Nil split: prod.splits)

lemma Split_error:
  "DataSourcePartitions ext d server = Inl e \<Longrightarrow>
   \<exists>msg. SplitIndexDefIntoPlanPIndexes ext d server out rng0 = Inl msg"
  by (simp add: SplitIndexDefIntoPlanPIndexes_def)

lemma demo_names:
  "ChecksumIEEE ''0,1,2,3'' = 0x92ca0597"
  "ChecksumIEEE ''4,5,6,7'' = 0x9361eb81"
  "ChecksumIEEE ''8,9'' = 0xb30d8e9c"
  by (simp_all add: crc_eval)

lemma demo_split_chunks:
  "split_chunks 4 demo_partitions
   = [[''0'', ''1'', ''2'', ''3''], [''4'', ''5'', ''6'', ''7''], [''8'', ''9'']]"
  by (simp add: demo_partitions_def split_chunks_def Let_def)

lemma addPlanPIndex_forIndex:
  "map_of (planPIndexesForIndex (addPlanPIndex ext d c st)) k = Some q \<Longrightarrow>
   map_of (planPIndexesForIndex st) k = Some q \<or>
   (k = PlanPIndexName d (Join c '','') \<and> PlanPIndex.Name q = k \<and>
    SourcePartitions q = Join c '','' \<and> IndexName q = IndexDef.Name d \<and>
    IndexUUID q = IndexDef.UUID d \<and> Nodes q = [])"
  by (auto simp: addPlanPIndex_def Let_def update_conv' split: if_splits)

lemma addPlanPIndex_out:
  "map_of (PlanPIndexes (planPIndexesOut (addPlanPIndex ext d c st))) k = Some q \<Longrightarrow>
   map_of (PlanPIndexes (planPIndexesOut st)) k = Some q \<or>
   (k = PlanPIndexName d (Join c '','') \<and> PlanPIndex.Name q = k \<and>
    SourcePartitions q = Join c '','' \<and> IndexName q = IndexDef.Name d \<and>
    IndexUUID q = IndexDef.UUID d \<and> Nodes q = [])"
  by (auto simp: addPlanPIndex_def Let_def update_conv' split: if_splits)

lemma update_keys_set: "fst ` set (AList.update k v al) = insert k (fst ` set al)"
proof -
  have "set (map fst (AList.update k v al)) = insert k (set (map fst al))"
    by (auto simp: update_keys)
  then show ?thesis by simp
qed

lemma addPlanPIndex_dom:
  "fst ` set (planPIndexesForIndex (addPlanPIndex ext d c st)) =
   insert (PlanPIndexName d (Join c '','')) (fst ` set (planPIndexesForIndex st))"
  by (simp add: addPlanPIndex_def Let_def update_keys_set)

lemma foldl_add_forIndex:
  "map_of (planPIndexesForIndex (foldl (\<lambda>s c. addPlanPIndex ext d c s) st cs)) k = Some q \<Longrightarrow>
   map_of (planPIndexesForIndex st) k = Some q \<or>
   (\<exists>c\<in>set cs. k = PlanPIndexName d (Join c '','') \<and> PlanPIndex.Name q = k \<and>
      SourcePartitions q = Join c '','' \<and> IndexName q = IndexDef.Name d \<and>
      IndexUUID q = IndexDef.UUID d \<and> Nodes q = [])"
proof (induction cs arbitrary: q rule: rev_induct)
  case Nil
  then show ?case by simp
next
  case (snoc c cs)
  from snoc.prems
  have "map_of (planPIndexesForIndex
          (addPlanPIndex ext d c (foldl (\<lambda>s c. addPlanPIndex ext d c s) st cs))) k = Some q"
    by simp
  from addPlanPIndex_forIndex [OF this] show ?case
    using snoc.IH by auto
qed

lemma foldl_add_out:
  "map_of (PlanPIndexes (planPIndexesOut (foldl (\<lambda>s c. addPlanPIndex ext d c s) st cs))) k
     = Some q \<Longrightarrow>
   map_of (PlanPIndexes (planPIndexesOut st)) k = Some q \<or>
   (\<exists>c\<in>set cs. k = PlanPIndexName d (Join c '','') \<and> PlanPIndex.Name q = k \<and>
      SourcePartitions q = Join c '','' \<and> IndexName q = IndexDef.Name d \<and>
      IndexUUID q = IndexDef.UUID d \<and> Nodes q = [])"
proof (induction cs arbitrary: q rule: rev_induct)
  case Nil
  then show ?case by simp
next
  case (snoc c cs)
  from snoc.prems
  have "map_of (PlanPIndexes (planPIndexesOut
          (addPlanPIndex ext d c (foldl (\<lambda>s c. addPlanPIndex ext d c s) st cs)))) k = Some q"
    by simp
  from addPlanPIndex_out [OF this] show ?case
    using snoc.IH by auto
qed

lemma foldl_add_dom:
  "fst ` set (planPIndexesForIndex (foldl (\<lambda>s c. addPlanPIndex ext d c s) st cs)) =
   (\<lambda>c. PlanPIndexName d (Join c '','')) ` set cs \<union> fst ` set (planPIndexesForIndex st)"
  by (induction cs rule: rev_induct) (auto simp: addPlanPIndex_dom)

lemma addPlanPIndex_distinct:
  "distinct (map fst (planPIndexesForIndex st)) \<Longrightarrow>
   distinct (map fst (planPIndexesForIndex (addPlanPIndex ext d c st)))"
  by (simp add: addPlanPIndex_def Let_def distinct_update)

lemma foldl_add_distinct:
  "distinct (map fst (planPIndexesForIndex st)) \<Longrightarrow>
   distinct (map fst (planPIndexesForIndex (foldl (\<lambda>s c. addPlanPIndex ext d c s) st cs)))"
  by (induction cs rule: rev_induct) (simp_all add: addPlanPIndex_distinct)

definition demo_pindex :: "string \<Rightarrow> string \<Rightarrow> string \<Rightarrow> PlanPIndex" where
  "demo_pindex name uuid sourcePartitions =
     \<lparr>PlanPIndex.Name = name, UUID = uuid, IndexType = ''vlite'', IndexName = ''i'',
      IndexUUID = ''U'', IndexParams = [], SourceType = ''couchbase'',
      SourceName = ''default'', SourceUUID = [], SourceParams = [],
      SourcePartitions = sourcePartitions, Nodes = []\<rparr>"

definition demo_three :: "(string \<times> PlanPIndex) list" where
  "demo_three =
     [(''i_U_92ca0597'', demo_pindex ''i_U_92ca0597'' ''0'' ''0,1,2,3''),
      (''i_U_9361eb81'', demo_pindex ''i_U_9361eb81'' ''1'' ''4,5,6,7''),
      (''i_U_b30d8e9c'', demo_pindex ''i_U_b30d8e9c'' ''2'' ''8,9'')]"

lemma demo_split_state:
  "SplitIndexDefIntoPlanPIndexes (demo_ext demo_partitions) (demo_indexDef 4 False) []
     demo_plan 0
   = Inr \<lparr>planPIndexesOut = demo_plan\<lparr>PlanPIndexes := demo_three\<rparr>,
          planPIndexesForIndex = demo_three, rng = 3\<rparr>"
proof -
  have ds: "DataSourcePartitions (demo_ext demo_partitions) (demo_indexDef 4 False) []
            = Inr demo_partitions"
    by (simp add: demo_ext_def)
  have m: "MaxPartitionsPerPIndex (PlanParams (demo_indexDef 4 False)) = 4"
    by (simp add: demo_indexDef_def)
  have cs: "split_chunks 4 demo_partitions
            = [[''0'', ''1'', ''2'', ''3''], [''4'', ''5'', ''6'', ''7''], [''8'', ''9'']]"
    by (rule demo_split_chunks)
  show ?thesis
    unfolding Split_run [OF ds] m cs
    by (simp add: demo_ext_def demo_indexDef_def addPlanPIndex_def Let_def
          PlanPIndexName_def demo_names hex_eval demo_three_def demo_pindex_def demo_plan_def)
qed

text \<open>
  Claim C3.  Every PlanPIndex that the split constructs (those of the returned map, and
  those it adds to the plan) is stored under its name, and the name is the index name, an
  underscore, the index UUID, an underscore, and the lower-case hexadecimal CRC-32/IEEE of
  its \<open>SourcePartitions\<close>, which is the comma-join of one group of source partitions in
  the order the data source reported them.  The name is thus a function of the index name,
  the index UUID and the source partitions alone.
\<close>

theorem C3_PlanPIndex_name:
  assumes "SplitIndexDefIntoPlanPIndexes ext indexDef server out rng0 = Inr st"
  shows "(map_of (planPIndexesForIndex st) k = Some q \<or>
          (map_of (PlanPIndexes (planPIndexesOut st)) k = Some q \<and>
           map_of (PlanPIndexes out) k \<noteq> Some q))
         \<longrightarrow>
         PlanPIndex.Name q = IndexName q @ ''_'' @ IndexUUID q @ ''_'' @
                             fmt_x (unat (ChecksumIEEE (SourcePartitions q)))
         \<and> k = PlanPIndex.Name q
         \<and> IndexName q = IndexDef.Name indexDef \<and> IndexUUID q = IndexDef.UUID indexDef
         \<and> (\<exists>ps c. DataSourcePartitions ext indexDef server = Inr ps
                \<and> c \<in> set (split_chunks (MaxPartitionsPerPIndex (PlanParams indexDef)) ps)
                \<and> SourcePartitions q = Join c '','')"
proof (cases "DataSourcePartitions ext indexDef server")
  case (Inl e)
  with assms show ?thesis
    by (simp add: SplitIndexDefIntoPlanPIndexes_def)
next
  case (Inr ps)
  let ?cs = "split_chunks (MaxPartitionsPerPIndex (PlanParams indexDef)) ps"
  let ?init = "\<lparr>planPIndexesOut = out, planPIndexesForIndex = [], rng = rng0\<rparr>"
  from assms Split_run [OF Inr, of out rng0]
  have st: "st = foldl (\<lambda>s c. addPlanPIndex ext indexDef c s) ?init ?cs"
    by simp
  show ?thesis
  proof
    assume h: "map_of (planPIndexesForIndex st) k = Some q \<or>
          (map_of (PlanPIndexes (planPIndexesOut st)) k = Some q \<and>
           map_of (PlanPIndexes out) k \<noteq> Some q)"
    have "\<exists>c\<in>set ?cs. k = PlanPIndexName indexDef (Join c '','') \<and> PlanPIndex.Name q = k \<and>
            SourcePartitions q = Join c '','' \<and> IndexName q = IndexDef.Name indexDef \<and>
            IndexUUID q = IndexDef.UUID indexDef \<and> Nodes q = []"
      using h foldl_add_forIndex [of ext indexDef ?init ?cs k q]
        foldl_add_out [of ext indexDef ?init ?cs k q]
      unfolding st by auto
    then obtain c where c: "c \<in> set ?cs" "k = PlanPIndexName indexDef (Join c '','')"
      "PlanPIndex.Name q = k" "SourcePartitions q = Join c '',''"
      "IndexName q = IndexDef.Name indexDef" "IndexUUID q = IndexDef.UUID indexDef"
      by blast
    then show "PlanPIndex.Name q = IndexName q @ ''_'' @ IndexUUID q @ ''_'' @
                             fmt_x (unat (ChecksumIEEE (SourcePartitions q)))
         \<and> k = PlanPIndex.Name q
         \<and> IndexName q = IndexDef.Name indexDef \<and> IndexUUID q = IndexDef.UUID indexDef
         \<and> (\<exists>ps c. DataSourcePartitions ext indexDef server = Inr ps
                \<and> c \<in> set (split_chunks (MaxPartitionsPerPIndex (PlanParams indexDef)) ps)
                \<and> SourcePartitions q = Join c '','')"
      using Inr by (auto simp: PlanPIndexName_def)
  qed
qed

theorem C3_PlanPIndex_name_witness:
  "SplitIndexDefIntoPlanPIndexes (demo_ext demo_partitions) (demo_indexDef 4 False) []
     demo_plan 0
   = Inr \<lparr>planPIndexesOut = demo_plan\<lparr>PlanPIndexes := demo_three\<rparr>,
          planPIndexesForIndex = demo_three, rng = 3\<rparr>
   \<and> map_of demo_three ''i_U_9361eb81'' = Some (demo_pindex ''i_U_9361eb81'' ''1'' ''4,5,6,7'')
   \<and> PlanPIndex.Name (demo_pindex ''i_U_9361eb81'' ''1'' ''4,5,6,7'') =
       ''i'' @ ''_'' @ ''U'' @ ''_'' @ fmt_x (unat (ChecksumIEEE ''4,5,6,7''))"
  using C3_PlanPIndex_name [OF demo_split_state, of "''i_U_9361eb81''"
          "demo_pindex ''i_U_9361eb81'' ''1'' ''4,5,6,7''"]
  by (simp add: demo_split_state demo_three_def demo_pindex_def demo_names hex_eval)

lemma chunks_non_empty: "split_chunks m ps \<noteq> []"
  by (simp add: split_chunks_def split: prod.splits)

lemma concat_split_chunks: "concat (split_chunks m ps) = ps"
proof (cases "0 < m")
  case True
  then show ?thesis by (rule split_chunks_bounded(1))
next
  case False
  then show ?thesis by (simp add: split_chunks_unbounded)
qed

text \<open>
  Claim C2, as the code has it.  The split emits one PlanPIndex per group, in order, and the
  groups concatenate to the reported list.  When \<open>maxPartitionsPerPIndex\<close> is positive,
  every group but the last has exactly that many partitions and the last has at most that
  many (and at least one, unless the list is empty).  When it is zero or negative the
  guard \<open>maxPartitionsPerPIndex > 0\<close> never fires, and the whole list is one group.  An
  empty list gives exactly one PlanPIndex, with empty source partitions.  The returned map
  is keyed by the names of the groups, and each of its entries carries the comma-join of a
  group.
\<close>

theorem C2_split_groups:
  assumes "DataSourcePartitions ext indexDef server = Inr ps"
  shows "let m = MaxPartitionsPerPIndex (PlanParams indexDef);
             cs = split_chunks m ps;
             st = foldl (\<lambda>s c. addPlanPIndex ext indexDef c s)
                    \<lparr>planPIndexesOut = out, planPIndexesForIndex = [], rng = rng0\<rparr> cs
         in SplitIndexDefIntoPlanPIndexes ext indexDef server out rng0 = Inr st
            \<and> cs \<noteq> [] \<and> concat cs = ps
            \<and> (0 < m \<longrightarrow> (\<forall>c\<in>set (butlast cs). int (length c) = m)
                          \<and> int (length (last cs)) \<le> m
                          \<and> (ps \<noteq> [] \<longrightarrow> last cs \<noteq> []))
            \<and> (m \<le> 0 \<longrightarrow> cs = [ps])
            \<and> (ps = [] \<longrightarrow> cs = [[]] \<and> length (planPIndexesForIndex st) = 1
                           \<and> SourcePartitions (snd (hd (planPIndexesForIndex st))) = [])
            \<and> fst ` set (planPIndexesForIndex st)
                = (\<lambda>c. PlanPIndexName indexDef (Join c '','')) ` set cs
            \<and> (\<forall>k q. map_of (planPIndexesForIndex st) k = Some q \<longrightarrow>
                  (\<exists>c\<in>set cs. k = PlanPIndexName indexDef (Join c '','')
                             \<and> SourcePartitions q = Join c '',''))"
proof -
  let ?m = "MaxPartitionsPerPIndex (PlanParams indexDef)"
  let ?cs = "split_chunks ?m ps"
  let ?init = "\<lparr>planPIndexesOut = out, planPIndexesForIndex = [], rng = rng0\<rparr>"
  let ?st = "foldl (\<lambda>s c. addPlanPIndex ext indexDef c s) ?init ?cs"
  have run: "SplitIndexDefIntoPlanPIndexes ext indexDef server out rng0 = Inr ?st"
    by (rule Split_run [OF assms])
  have ne: "?cs \<noteq> []" by (rule chunks_non_empty)
  have cc: "concat ?cs = ps" by (rule concat_split_chunks)
  have bounded: "0 < ?m \<longrightarrow> (\<forall>c\<in>set (butlast ?cs). int (length c) = ?m)
                          \<and> int (length (last ?cs)) \<le> ?m
                          \<and> (ps \<noteq> [] \<longrightarrow> last ?cs \<noteq> [])"
    using split_chunks_bounded(2,4,5) [of ?m ps] by blast
  have unbounded: "?m \<le> 0 \<longrightarrow> ?cs = [ps]"
    by (simp add: split_chunks_unbounded)
  have empty: "ps = [] \<longrightarrow> ?cs = [[]] \<and> length (planPIndexesForIndex ?st) = 1
                 \<and> SourcePartitions (snd (hd (planPIndexesForIndex ?st))) = []"
    by (simp add: split_chunks_empty addPlanPIndex_def Let_def)
  have dom: "fst ` set (planPIndexesForIndex ?st)
               = (\<lambda>c. PlanPIndexName indexDef (Join c '','')) ` set ?cs"
    by (simp add: foldl_add_dom)
  have vals: "\<forall>k q. map_of (planPIndexesForIndex ?st) k = Some q \<longrightarrow>
                  (\<exists>c\<in>set ?cs. k = PlanPIndexName indexDef (Join c '','')
                             \<and> SourcePartitions q = Join c '','')"
    using foldl_add_forIndex [where ext = ext and d = indexDef and st = ?init and cs = ?cs]
    by fastforce
  show ?thesis
    unfolding Let_def
    using run ne cc bounded unbounded empty dom vals by blast
qed

lemma demo_DataSourcePartitions:
  "DataSourcePartitions (demo_ext ps) d server = Inr ps"
  by (simp add: demo_ext_def)

theorem C2_split_groups_witness:
  "DataSourcePartitions (demo_ext demo_partitions) (demo_indexDef 4 False) []
     = Inr demo_partitions
   \<and> 0 < MaxPartitionsPerPIndex (PlanParams (demo_indexDef 4 False))
   \<and> demo_partitions \<noteq> []
   \<and> [''0'', ''1'', ''2'', ''3''] \<in> set (butlast (split_chunks 4 demo_partitions))
   \<and> SplitIndexDefIntoPlanPIndexes (demo_ext demo_partitions) (demo_indexDef 4 False) []
        demo_plan 0
      = Inr (foldl (\<lambda>s c. addPlanPIndex (demo_ext demo_partitions) (demo_indexDef 4 False) c s)
               \<lparr>planPIndexesOut = demo_plan, planPIndexesForIndex = [], rng = 0\<rparr>
               (split_chunks 4 demo_partitions))
   \<and> concat (split_chunks 4 demo_partitions) = demo_partitions
   \<and> int (length (last (split_chunks 4 demo_partitions))) \<le> 4
   \<and> map_of demo_three ''i_U_b30d8e9c'' = Some (demo_pindex ''i_U_b30d8e9c'' ''2'' ''8,9'')"
proof -
  have m: "MaxPartitionsPerPIndex (PlanParams (demo_indexDef 4 False)) = 4"
    by (simp add: demo_indexDef_def)
  have run: "SplitIndexDefIntoPlanPIndexes (demo_ext demo_partitions) (demo_indexDef 4 False) []
        demo_plan 0
      = Inr (foldl (\<lambda>s c. addPlanPIndex (demo_ext demo_partitions) (demo_indexDef 4 False) c s)
               \<lparr>planPIndexesOut = demo_plan, planPIndexesForIndex = [], rng = 0\<rparr>
               (split_chunks 4 demo_partitions))"
    and cc: "concat (split_chunks 4 demo_partitions) = demo_partitions"
    and lst: "int (length (last (split_chunks 4 demo_partitions))) \<le> 4"
    using C2_split_groups [OF demo_DataSourcePartitions,
          where ps = demo_partitions and indexDef = "demo_indexDef 4 False" and server = "[]"
            and out = demo_plan and ?rng0.0 = 0]
    unfolding Let_def m by simp_all
  have ne: "demo_partitions \<noteq> []"
    by (simp add: demo_partitions_def)
  have mem: "[''0'', ''1'', ''2'', ''3''] \<in> set (butlast (split_chunks 4 demo_partitions))"
    by (simp add: demo_split_chunks)
  have look: "map_of demo_three ''i_U_b30d8e9c''
              = Some (demo_pindex ''i_U_b30d8e9c'' ''2'' ''8,9'')"
    by (simp add: demo_three_def)
  show ?thesis
    using demo_DataSourcePartitions [of demo_partitions "demo_indexDef 4 False" "[]"]
      m run cc lst ne mem look
    by simp
qed

text \<open>
  The scenario of the specification: partitions 0 to 9 with at most four per PlanPIndex
  give three PlanPIndexes, over the groups 0-3, 4-7 and 8-9.
\<close>

lemma C2_example_ten_by_four:
  "split_chunks 4 demo_partitions
     = [[''0'', ''1'', ''2'', ''3''], [''4'', ''5'', ''6'', ''7''], [''8'', ''9'']]
   \<and> map (\<lambda>kp. SourcePartitions (snd kp))
       (planPIndexesForIndex (projr (SplitIndexDefIntoPlanPIndexes (demo_ext demo_partitions)
          (demo_indexDef 4 False) [] demo_plan 0)))
     = [''0,1,2,3'', ''4,5,6,7'', ''8,9'']"
proof -
  have "split_chunks 4 demo_partitions
     = [[''0'', ''1'', ''2'', ''3''], [''4'', ''5'', ''6'', ''7''], [''8'', ''9'']]"
    by (rule demo_split_chunks)
  then show ?thesis
    by (simp add: demo_split_state demo_three_def demo_pindex_def)
qed

text \<open>
  With \<open>maxPartitionsPerPIndex = 0\<close> two partitions end in one group of two, which is more
  than \<open>maxPartitionsPerPIndex\<close>.
\<close>

theorem C2_unbounded_counterexample:
  "MaxPartitionsPerPIndex (PlanParams (demo_indexDef 0 False)) = 0
   \<and> map (\<lambda>kp. SourcePartitions (snd kp))
       (planPIndexesForIndex (projr (SplitIndexDefIntoPlanPIndexes (demo_ext [''0'', ''1''])
          (demo_indexDef 0 False) [] demo_plan 0)))
     = [''0,1'']
   \<and> split_chunks 0 [''0'', ''1''] = [[''0'', ''1'']]
   \<and> \<not> int (length [''0'', ''1'']) \<le> MaxPartitionsPerPIndex (PlanParams (demo_indexDef 0 False))"
  by (simp add: Split_run [OF demo_DataSourcePartitions] split_chunks_unbounded
        demo_indexDef_def addPlanPIndex_def Let_def)

subsection \<open>Properties of the planning loop\<close>

text \<open>
  A PlanPIndex matches an index definition when it carries its name and UUID.  The names
  under which a run constructs PlanPIndexes for an index definition are those of the groups
  of its split; there are none when the definition is frozen, when its type cannot be
  instantiated, or when the data source fails.  Split and placement for an index definition
  touch the plan only at these names, and what they store there matches it.
\<close>

definition matches :: "IndexDef \<Rightarrow> PlanPIndex \<Rightarrow> bool" where
  "matches indexDef p \<longleftrightarrow>
     IndexName p = IndexDef.Name indexDef \<and> IndexUUID p = IndexDef.UUID indexDef"

definition constructed_names :: "'nd Externals \<Rightarrow> string \<Rightarrow> IndexDef \<Rightarrow> string set" where
  "constructed_names ext server indexDef =
     (if PlanFrozen (PlanParams indexDef) then {}
      else case PIndexImplTypes ext (IndexDef.Type indexDef) of
             None \<Rightarrow> {}
           | Some None \<Rightarrow> {}
           | Some (Some pindexImplType) \<Rightarrow>
               if \<not> New_set pindexImplType \<or> \<not> Open_set pindexImplType then {}
               else
                 (case DataSourcePartitions ext indexDef server of
                    Inl err \<Rightarrow> {}
                  | Inr sourcePartitionsArr \<Rightarrow>
                      (\<lambda>c. PlanPIndexName indexDef (Join c '','')) `
                        set (split_chunks (MaxPartitionsPerPIndex (PlanParams indexDef))
                               sourcePartitionsArr)))"

definition touched_only ::
  "string set \<Rightarrow> IndexDef \<Rightarrow> (string \<times> PlanPIndex) list \<Rightarrow> (string \<times> PlanPIndex) list \<Rightarrow> bool"
  where
  "touched_only N d before after \<longleftrightarrow>
     (\<forall>k. map_of after k = map_of before k \<or>
          (k \<in> N \<and> (\<exists>q. map_of after k = Some q \<and> matches d q)))"

lemma touched_only_refl: "touched_only N d a a"
  by (simp add: touched_only_def)

lemma touched_only_trans:
  "touched_only N d a b \<Longrightarrow> touched_only N d b c \<Longrightarrow> touched_only N d a c"
  unfolding touched_only_def by metis

lemma copy_frozen_lookup:
  assumes "distinct (map fst prev)"
  shows "map_of (copy_frozen d prev acc) k =
         (case map_of prev k of
            Some p \<Rightarrow> if matches d p then Some p else map_of acc k
          | None \<Rightarrow> map_of acc k)"
  using assms unfolding copy_frozen_def
proof (induction prev arbitrary: acc rule: rev_induct)
  case Nil
  then show ?case by simp
next
  case (snoc kp prev)
  obtain k' p' where kp: "kp = (k', p')" by (cases kp)
  from snoc.prems have d: "distinct (map fst prev)" and nin: "k' \<notin> fst ` set prev"
    by (auto simp: kp)
  from nin have n: "map_of prev k' = None"
    by (simp add: map_of_eq_None_iff)
  have mo: "map_of (prev @ [kp]) k = (if k = k' then Some p' else map_of prev k)"
    using n by (cases "map_of prev k") (auto simp: kp map_add_def)
  show ?case
    using snoc.IH [OF d, of acc] n
    by (auto simp: mo kp update_conv' matches_def split: option.splits)
qed

lemma addPlanPIndex_touched:
  "c \<in> set cs \<Longrightarrow>
   touched_only ((\<lambda>c. PlanPIndexName d (Join c '','')) ` set cs) d
     (PlanPIndexes (planPIndexesOut st))
     (PlanPIndexes (planPIndexesOut (addPlanPIndex ext d c st)))"
  by (auto simp: touched_only_def addPlanPIndex_def Let_def update_conv' matches_def)

lemma foldl_add_touched:
  "set xs \<subseteq> set cs \<Longrightarrow>
   touched_only ((\<lambda>c. PlanPIndexName d (Join c '','')) ` set cs) d
     (PlanPIndexes (planPIndexesOut st))
     (PlanPIndexes (planPIndexesOut (foldl (\<lambda>s c. addPlanPIndex ext d c s) st xs)))"
proof (induction xs rule: rev_induct)
  case Nil
  then show ?case by (simp add: touched_only_refl)
next
  case (snoc x xs)
  then have x: "x \<in> set cs" and xs: "set xs \<subseteq> set cs" by simp_all
  show ?case
    using touched_only_trans [OF snoc.IH [OF xs] addPlanPIndex_touched [OF x]] by simp
qed

definition forIndex_ok :: "string set \<Rightarrow> IndexDef \<Rightarrow> split_state \<Rightarrow> bool" where
  "forIndex_ok N d st \<longleftrightarrow>
     (\<forall>k q. map_of (planPIndexesForIndex st) k = Some q \<longrightarrow> k \<in> N \<and> matches d q)"

lemma foldl_add_forIndex_ok:
  "forIndex_ok ((\<lambda>c. PlanPIndexName d (Join c '','')) ` set cs) d
     (foldl (\<lambda>s c. addPlanPIndex ext d c s)
        \<lparr>planPIndexesOut = out, planPIndexesForIndex = [], rng = r\<rparr> cs)"
  unfolding forIndex_ok_def matches_def
  using foldl_add_forIndex
          [of ext d "\<lparr>planPIndexesOut = out, planPIndexesForIndex = [], rng = r\<rparr>" cs]
  by fastforce

lemma blance_apply_touched:
  assumes "blance_apply ext d bm st = Some st'" "forIndex_ok N d st"
  shows "touched_only N d (PlanPIndexes (planPIndexesOut st)) (PlanPIndexes (planPIndexesOut st'))"
  using assms
proof (induction bm arbitrary: st)
  case Nil
  then show ?case by (simp add: touched_only_refl)
next
  case (Cons b bm)
  obtain name primary replica where b: "b = (name, primary, replica)" by (cases b)
  from Cons.prems(1) obtain p where p: "map_of (planPIndexesForIndex st) name = Some p"
    by (auto simp: b split: option.splits)
  let ?p' = "p\<lparr>Nodes := blance_nodes ext d name primary replica\<rparr>"
  let ?st1 = "st\<lparr>planPIndexesOut := (planPIndexesOut st)\<lparr>PlanPIndexes :=
                        AList.update name ?p' (PlanPIndexes (planPIndexesOut st))\<rparr>,
                    planPIndexesForIndex := AList.update name ?p' (planPIndexesForIndex st)\<rparr>"
  from Cons.prems(1) p have rec: "blance_apply ext d bm ?st1 = Some st'"
    by (simp add: b Let_def)
  from Cons.prems(2) p have pk: "name \<in> N" and pm: "matches d p"
    by (auto simp: forIndex_ok_def)
  have ok1: "forIndex_ok N d ?st1"
    using Cons.prems(2) pk pm
    by (auto simp: forIndex_ok_def update_conv' matches_def)
  have t1: "touched_only N d (PlanPIndexes (planPIndexesOut st))
              (PlanPIndexes (planPIndexesOut ?st1))"
    using pk pm by (auto simp: touched_only_def update_conv' matches_def)
  from Cons.IH [OF rec ok1] t1 show ?case
    by (auto intro: touched_only_trans)
qed

lemma CalcPlan_indexDef_engine_touched:
  assumes "CalcPlan_indexDef ext nds prev server d st = Some st'"
      and "\<not> PlanFrozen (PlanParams d)"
  shows "touched_only (constructed_names ext server d) d
           (PlanPIndexes (fst st)) (PlanPIndexes (fst st'))"
proof (cases "st' = st")
  case True
  then show ?thesis by (simp add: touched_only_refl)
next
  case False
  with assms obtain t sst sst' warnings where
    ty: "PIndexImplTypes ext (IndexDef.Type d) = Some (Some t)" "New_set t" "Open_set t"
    and split: "SplitIndexDefIntoPlanPIndexes ext d server (fst st) (snd st) = Inr sst"
    and bl: "BlancePlanPIndexes ext d sst prev nds = Some (sst', warnings)"
    and st': "st' = ((planPIndexesOut sst')\<lparr>Warnings :=
                        AList.update (IndexDef.Name d) warnings (Warnings (planPIndexesOut sst'))\<rparr>,
                     rng sst')"
    by (auto simp: CalcPlan_indexDef_def split: option.splits if_splits sum.splits)
  from split obtain ps where ps: "DataSourcePartitions ext d server = Inr ps"
    by (cases "DataSourcePartitions ext d server")
       (simp_all add: SplitIndexDefIntoPlanPIndexes_def)
  let ?cs = "split_chunks (MaxPartitionsPerPIndex (PlanParams d)) ps"
  let ?N = "(\<lambda>c. PlanPIndexName d (Join c '','')) ` set ?cs"
  let ?init = "\<lparr>planPIndexesOut = fst st, planPIndexesForIndex = [], rng = snd st\<rparr>"
  have N: "constructed_names ext server d = ?N"
    using assms(2) ty ps by (simp add: constructed_names_def)
  from split Split_run [OF ps, of "fst st" "snd st"]
  have sst: "sst = foldl (\<lambda>s c. addPlanPIndex ext d c s) ?init ?cs" by simp
  have ok: "forIndex_ok ?N d sst"
    unfolding sst by (rule foldl_add_forIndex_ok)
  have t1: "touched_only ?N d (PlanPIndexes (fst st)) (PlanPIndexes (planPIndexesOut sst))"
    using foldl_add_touched [of ?cs ?cs d ?init ext] by (simp add: sst)
  from bl obtain bm where "blance_apply ext d bm sst = Some sst'"
    by (auto simp: BlancePlanPIndexes_def Let_def split: prod.splits option.splits)
  from blance_apply_touched [OF this ok]
  have t2: "touched_only ?N d (PlanPIndexes (planPIndexesOut sst))
              (PlanPIndexes (planPIndexesOut sst'))" .
  from touched_only_trans [OF t1 t2] show ?thesis
    by (simp add: st' N)
qed

lemma CalcPlan_indexDef_frozen:
  assumes "PlanFrozen (PlanParams d)"
  shows "CalcPlan_indexDef ext nds (Some prev) server d st =
         Some ((fst st)\<lparr>PlanPIndexes :=
                 copy_frozen d (PlanPIndexes prev) (PlanPIndexes (fst st))\<rparr>, snd st)"
  using assms by (simp add: CalcPlan_indexDef_def)

text \<open>
  The invariant of the loop for a frozen index definition \<open>d\<close>: what the plan under
  construction holds for \<open>d\<close> comes from the previous plan, and (once \<open>d\<close> has had its
  turn) all of it is there.  It needs the names of the PlanPIndexes to be unique: a name
  constructed in the run belongs to an index definition other than \<open>d\<close> and is not the name
  of one of the previous PlanPIndexes of \<open>d\<close>.
\<close>

definition only_from_prev ::
  "IndexDef \<Rightarrow> (string \<times> PlanPIndex) list \<Rightarrow> (string \<times> PlanPIndex) list \<Rightarrow> bool" where
  "only_from_prev d prev acc \<longleftrightarrow>
     (\<forall>k q. map_of acc k = Some q \<and> matches d q \<longrightarrow> map_of prev k = Some q)"

definition all_from_prev ::
  "IndexDef \<Rightarrow> (string \<times> PlanPIndex) list \<Rightarrow> (string \<times> PlanPIndex) list \<Rightarrow> bool" where
  "all_from_prev d prev acc \<longleftrightarrow>
     (\<forall>k p. map_of prev k = Some p \<and> matches d p \<longrightarrow> map_of acc k = Some p)"

definition names_unique ::
  "'nd Externals \<Rightarrow> string \<Rightarrow> IndexDef \<Rightarrow> (string \<times> PlanPIndex) list \<Rightarrow> IndexDef \<Rightarrow> bool" where
  "names_unique ext server d prev d' \<longleftrightarrow>
     (\<forall>k\<in>constructed_names ext server d'.
        (IndexDef.Name d' \<noteq> IndexDef.Name d \<or> IndexDef.UUID d' \<noteq> IndexDef.UUID d) \<and>
        (\<forall>p. map_of prev k = Some p \<longrightarrow> \<not> matches d p))"

lemma step_only_from_prev:
  assumes "CalcPlan_indexDef ext nds (Some prev) server d' st = Some st'"
      and "distinct (map fst (PlanPIndexes prev))"
      and "names_unique ext server d (PlanPIndexes prev) d'"
      and "only_from_prev d (PlanPIndexes prev) (PlanPIndexes (fst st))"
  shows "only_from_prev d (PlanPIndexes prev) (PlanPIndexes (fst st'))"
proof (cases "PlanFrozen (PlanParams d')")
  case True
  with assms(1) CalcPlan_indexDef_frozen [OF True, of ext nds prev server st]
  have "PlanPIndexes (fst st') = copy_frozen d' (PlanPIndexes prev) (PlanPIndexes (fst st))"
    by auto
  then show ?thesis
    using assms(4) copy_frozen_lookup [OF assms(2), of d' "PlanPIndexes (fst st)"]
    by (auto simp: only_from_prev_def split: option.splits if_splits)
next
  case False
  from CalcPlan_indexDef_engine_touched [OF assms(1) False]
  have t: "touched_only (constructed_names ext server d') d'
             (PlanPIndexes (fst st)) (PlanPIndexes (fst st'))" .
  show ?thesis
    unfolding only_from_prev_def
  proof (intro allI impI)
    fix k q
    assume h: "map_of (PlanPIndexes (fst st')) k = Some q \<and> matches d q"
    from t have "map_of (PlanPIndexes (fst st')) k = map_of (PlanPIndexes (fst st)) k \<or>
        (k \<in> constructed_names ext server d' \<and>
         (\<exists>q'. map_of (PlanPIndexes (fst st')) k = Some q' \<and> matches d' q'))"
      by (auto simp: touched_only_def)
    then show "map_of (PlanPIndexes prev) k = Some q"
    proof
      assume "map_of (PlanPIndexes (fst st')) k = map_of (PlanPIndexes (fst st)) k"
      with h assms(4) show ?thesis by (auto simp: only_from_prev_def)
    next
      assume c: "k \<in> constructed_names ext server d' \<and>
                 (\<exists>q'. map_of (PlanPIndexes (fst st')) k = Some q' \<and> matches d' q')"
      with h have "matches d' q" by auto
      moreover from c assms(3)
      have "IndexDef.Name d' \<noteq> IndexDef.Name d \<or> IndexDef.UUID d' \<noteq> IndexDef.UUID d"
        by (auto simp: names_unique_def)
      ultimately show ?thesis using h by (auto simp: matches_def)
    qed
  qed
qed

lemma step_all_from_prev:
  assumes "CalcPlan_indexDef ext nds (Some prev) server d' st = Some st'"
      and "distinct (map fst (PlanPIndexes prev))"
      and "names_unique ext server d (PlanPIndexes prev) d'"
      and "all_from_prev d (PlanPIndexes prev) (PlanPIndexes (fst st))
           \<or> (d' = d \<and> PlanFrozen (PlanParams d))"
  shows "all_from_prev d (PlanPIndexes prev) (PlanPIndexes (fst st'))"
proof (cases "PlanFrozen (PlanParams d')")
  case True
  with assms(1) CalcPlan_indexDef_frozen [OF True, of ext nds prev server st]
  have "PlanPIndexes (fst st') = copy_frozen d' (PlanPIndexes prev) (PlanPIndexes (fst st))"
    by auto
  then show ?thesis
    using assms(4) copy_frozen_lookup [OF assms(2), of d' "PlanPIndexes (fst st)"]
    by (auto simp: all_from_prev_def split: option.splits if_splits)
next
  case False
  with assms(4) have b: "all_from_prev d (PlanPIndexes prev) (PlanPIndexes (fst st))"
    by auto
  from CalcPlan_indexDef_engine_touched [OF assms(1) False]
  have t: "touched_only (constructed_names ext server d') d'
             (PlanPIndexes (fst st)) (PlanPIndexes (fst st'))" .
  show ?thesis
    unfolding all_from_prev_def
  proof (intro allI impI)
    fix k p
    assume h: "map_of (PlanPIndexes prev) k = Some p \<and> matches d p"
    with assms(3) have "k \<notin> constructed_names ext server d'"
      by (auto simp: names_unique_def)
    with t have "map_of (PlanPIndexes (fst st')) k = map_of (PlanPIndexes (fst st)) k"
      by (auto simp: touched_only_def)
    with b h show "map_of (PlanPIndexes (fst st')) k = Some p"
      by (auto simp: all_from_prev_def)
  qed
qed

lemma loop_frozen_invariant:
  assumes "CalcPlan_loop ext nds (Some prev) server ds st = Some st'"
      and "distinct (map fst (PlanPIndexes prev))"
      and "\<forall>d'\<in>set ds. names_unique ext server d (PlanPIndexes prev) d'"
      and "PlanFrozen (PlanParams d)"
      and "only_from_prev d (PlanPIndexes prev) (PlanPIndexes (fst st))"
  shows "only_from_prev d (PlanPIndexes prev) (PlanPIndexes (fst st')) \<and>
         (all_from_prev d (PlanPIndexes prev) (PlanPIndexes (fst st)) \<or> d \<in> set ds
            \<longrightarrow> all_from_prev d (PlanPIndexes prev) (PlanPIndexes (fst st')))"
  using assms(1,3,5)
proof (induction ds arbitrary: st)
  case Nil
  then show ?case by simp
next
  case (Cons d' ds)
  from Cons.prems(1) obtain st1 where
    s1: "CalcPlan_indexDef ext nds (Some prev) server d' st = Some st1"
    and rest: "CalcPlan_loop ext nds (Some prev) server ds st1 = Some st'"
    by (auto split: option.splits)
  from Cons.prems(2) have nc: "names_unique ext server d (PlanPIndexes prev) d'"
    and ncs: "\<forall>x\<in>set ds. names_unique ext server d (PlanPIndexes prev) x" by simp_all
  have a1: "only_from_prev d (PlanPIndexes prev) (PlanPIndexes (fst st1))"
    by (rule step_only_from_prev [OF s1 assms(2) nc Cons.prems(3)])
  have b1: "all_from_prev d (PlanPIndexes prev) (PlanPIndexes (fst st)) \<or> d' = d
            \<Longrightarrow> all_from_prev d (PlanPIndexes prev) (PlanPIndexes (fst st1))"
    using step_all_from_prev [OF s1 assms(2) nc] assms(4) by blast
  from Cons.IH [OF rest ncs a1] b1 show ?case by auto
qed

lemma CalcPlan_loop_append:
  "CalcPlan_loop ext nds prev server (xs @ ys) st =
     (case CalcPlan_loop ext nds prev server xs st of
        None \<Rightarrow> None
      | Some st' \<Rightarrow> CalcPlan_loop ext nds prev server ys st')"
  by (induction xs arbitrary: st) (simp_all split: option.splits)

definition demo_engine_j :: IndexDef where
  "demo_engine_j = (demo_indexDef 0 False)\<lparr>IndexDef.Name := ''j'', IndexDef.UUID := ''V''\<rparr>"

definition demo_alias :: "bool \<Rightarrow> IndexDef" where
  "demo_alias frozen =
     (demo_indexDef 0 frozen)\<lparr>IndexDef.Type := ''alias'', IndexDef.Name := ''al'',
                              IndexDef.UUID := ''A1''\<rparr>"

definition demo_prev_al :: PlanPIndex where
  "demo_prev_al = (demo_pindex ''x'' ''77'' [])\<lparr>IndexName := ''al'', IndexUUID := ''A1''\<rparr>"

definition demo_prev_j :: PlanPIndex where
  "demo_prev_j = (demo_pindex ''j_V_0'' ''78'' [])\<lparr>IndexName := ''j'', IndexUUID := ''V''\<rparr>"

definition demo_new_j :: PlanPIndex where
  "demo_new_j =
     (demo_pindex ''j_V_8dd93ce8'' ''1'' ''0,1,2,3,4,5,6,7,8,9'')\<lparr>IndexName := ''j'',
        IndexUUID := ''V'',
        Nodes := [(''N1'', \<lparr>CanRead = True, CanWrite = True, Priority = 0\<rparr>)]\<rparr>"

lemmas CalcPlan_eval =
  CalcPlan_def NewPlanPIndexes_def CalcPlan_indexDef_def copy_frozen_def
  SplitIndexDefIntoPlanPIndexes_def addPlanPIndex_def BlancePlanPIndexes_def
  blance_nodes_def assign_node_def PlanPIndexName_def Let_def update_conv'
  demo_ext_def demo_indexDef_def demo_pindex_def demo_plan_def

lemma demo_whole_name: "ChecksumIEEE ''0,1,2,3,4,5,6,7,8,9'' = 0x8dd93ce8"
  by (simp add: crc_eval)

lemma demo_engine_j_names:
  "constructed_names (demo_ext demo_partitions) [] demo_engine_j = {''j_V_8dd93ce8''}"
  by (simp add: constructed_names_def demo_engine_j_def demo_indexDef_def demo_ext_def
        split_chunks_unbounded PlanPIndexName_def demo_partitions_def demo_whole_name hex_eval)

text \<open>
  Claim C6.  The previous plan is a map (distinct names).  For a plan-frozen index
  definition, whatever its other plan parameters:

  \<^item> its step of the planning loop constructs nothing (the counter of random draws and every
    field of the plan but the map stay as they are) and leaves the map as it was but for the
    names under which the previous plan holds a PlanPIndex carrying its name and UUID, where
    it stores that PlanPIndex itself -- no other previous PlanPIndex is copied; without a
    previous plan the step changes nothing;

  \<^item> the step is the same whatever the data source, the placement library, the node
    definitions, the server and the sizes in the plan parameters are: neither split nor
    placement is called;

  \<^item> in the plan a run returns, the PlanPIndexes carrying its name and UUID are exactly the
    ones of the previous plan that do, under the same names and unchanged, the names of the
    PlanPIndexes being unique as \<open>PlanPIndexName\<close> requires: every name constructed in the
    run belongs to an index definition other than the frozen one and is not the name of one
    of its previous PlanPIndexes.
\<close>

theorem C6_frozen_copied_forward:
  assumes dist: "distinct (map fst (PlanPIndexes prev))"
      and frozen: "PlanFrozen (PlanParams d)"
  shows "(\<exists>out'. CalcPlan_indexDef ext nds (Some prev) server d (out, r) = Some (out', r) \<and>
              out'\<lparr>PlanPIndexes := []\<rparr> = out\<lparr>PlanPIndexes := []\<rparr> \<and>
              (\<forall>k. map_of (PlanPIndexes out') k =
                    (case map_of (PlanPIndexes prev) k of
                       None \<Rightarrow> map_of (PlanPIndexes out) k
                     | Some p \<Rightarrow>
                         if IndexName p = IndexDef.Name d \<and> IndexUUID p = IndexDef.UUID d
                         then Some p else map_of (PlanPIndexes out) k)))
         \<and> CalcPlan_indexDef ext nds None server d (out, r) = Some (out, r)
         \<and> CalcPlan_indexDef ext nds (Some prev) server d st
             = CalcPlan_indexDef ext' nds' (Some prev) server'
                 (d\<lparr>PlanParams := (PlanParams d)\<lparr>MaxPartitionsPerPIndex := m',
                                                     NumReplicas := r'\<rparr>\<rparr>) st
         \<and> (CalcPlan ext (Some defs) (Some nds) (Some prev) version server rng0
               = Some (Some plan, rng') \<and>
            d \<in> snd ` set defs \<and>
            (\<forall>d'\<in>snd ` set defs. \<forall>k'\<in>constructed_names ext server d'.
                (IndexDef.Name d' \<noteq> IndexDef.Name d \<or> IndexDef.UUID d' \<noteq> IndexDef.UUID d) \<and>
                (\<forall>p. map_of (PlanPIndexes prev) k' = Some p \<longrightarrow>
                     \<not> (IndexName p = IndexDef.Name d \<and> IndexUUID p = IndexDef.UUID d)))
            \<longrightarrow>
            ((map_of (PlanPIndexes plan) k = Some q \<and>
              IndexName q = IndexDef.Name d \<and> IndexUUID q = IndexDef.UUID d)
             \<longleftrightarrow>
             (map_of (PlanPIndexes prev) k = Some q \<and>
              IndexName q = IndexDef.Name d \<and> IndexUUID q = IndexDef.UUID d)))"
proof -
  let ?out' = "out\<lparr>PlanPIndexes := copy_frozen d (PlanPIndexes prev) (PlanPIndexes out)\<rparr>"
  have step: "CalcPlan_indexDef ext nds (Some prev) server d (out, r) = Some (?out', r)"
    using CalcPlan_indexDef_frozen [OF frozen, of ext nds prev server "(out, r)"] by simp
  have look: "\<forall>k. map_of (PlanPIndexes ?out') k =
                    (case map_of (PlanPIndexes prev) k of
                       None \<Rightarrow> map_of (PlanPIndexes out) k
                     | Some p \<Rightarrow>
                         if IndexName p = IndexDef.Name d \<and> IndexUUID p = IndexDef.UUID d
                         then Some p else map_of (PlanPIndexes out) k)"
    using copy_frozen_lookup [OF dist, of d "PlanPIndexes out"]
    by (simp add: matches_def split: option.splits)
  have one: "\<exists>out'. CalcPlan_indexDef ext nds (Some prev) server d (out, r) = Some (out', r) \<and>
              out'\<lparr>PlanPIndexes := []\<rparr> = out\<lparr>PlanPIndexes := []\<rparr> \<and>
              (\<forall>k. map_of (PlanPIndexes out') k =
                    (case map_of (PlanPIndexes prev) k of
                       None \<Rightarrow> map_of (PlanPIndexes out) k
                     | Some p \<Rightarrow>
                         if IndexName p = IndexDef.Name d \<and> IndexUUID p = IndexDef.UUID d
                         then Some p else map_of (PlanPIndexes out) k))"
    using step look by (intro exI [of _ ?out']) simp
  have none: "CalcPlan_indexDef ext nds None server d (out, r) = Some (out, r)"
    using frozen by (simp add: CalcPlan_indexDef_def)
  have indep: "CalcPlan_indexDef ext nds (Some prev) server d st
             = CalcPlan_indexDef ext' nds' (Some prev) server'
                 (d\<lparr>PlanParams := (PlanParams d)\<lparr>MaxPartitionsPerPIndex := m',
                                                     NumReplicas := r'\<rparr>\<rparr>) st"
    using frozen by (simp add: CalcPlan_indexDef_def copy_frozen_def)
  have whole: "(map_of (PlanPIndexes plan) k = Some q \<and>
              IndexName q = IndexDef.Name d \<and> IndexUUID q = IndexDef.UUID d)
             \<longleftrightarrow>
             (map_of (PlanPIndexes prev) k = Some q \<and>
              IndexName q = IndexDef.Name d \<and> IndexUUID q = IndexDef.UUID d)"
    if run: "CalcPlan ext (Some defs) (Some nds) (Some prev) version server rng0
               = Some (Some plan, rng')"
      and mem: "d \<in> snd ` set defs"
      and uniq: "\<forall>d'\<in>snd ` set defs. \<forall>k'\<in>constructed_names ext server d'.
                (IndexDef.Name d' \<noteq> IndexDef.Name d \<or> IndexDef.UUID d' \<noteq> IndexDef.UUID d) \<and>
                (\<forall>p. map_of (PlanPIndexes prev) k' = Some p \<longrightarrow>
                     \<not> (IndexName p = IndexDef.Name d \<and> IndexUUID p = IndexDef.UUID d))"
  proof -
    let ?init = "NewPlanPIndexes ext version rng0"
    from run have loop: "CalcPlan_loop ext nds (Some prev) server (map snd defs) ?init
                         = Some (plan, rng')"
      by (auto simp: CalcPlan_def split: option.splits)
    have nc: "\<forall>d'\<in>set (map snd defs). names_unique ext server d (PlanPIndexes prev) d'"
      using uniq by (simp add: names_unique_def matches_def)
    have a0: "only_from_prev d (PlanPIndexes prev) (PlanPIndexes (fst ?init))"
      by (simp add: only_from_prev_def NewPlanPIndexes_def)
    from mem have "d \<in> set (map snd defs)" by simp
    with loop_frozen_invariant [OF loop dist nc frozen a0]
    have "only_from_prev d (PlanPIndexes prev) (PlanPIndexes plan)"
      and "all_from_prev d (PlanPIndexes prev) (PlanPIndexes plan)"
      by simp_all
    then show ?thesis
      unfolding only_from_prev_def all_from_prev_def matches_def by blast
  qed
  from one none indep whole show ?thesis by blast
qed

text \<open>
  A run over the frozen index \<open>i\<close> (its limit changed from 4 to 2) and the index \<open>j\<close>,
  which is planned anew into one PlanPIndex; the previous plan holds the three PlanPIndexes
  of \<open>i\<close> and one of \<open>j\<close>.
\<close>

lemma demo_frozen_run:
  "CalcPlan (demo_ext demo_partitions)
     (Some [(''i'', demo_indexDef 2 True), (''j'', demo_engine_j)]) (Some ())
     (Some (demo_plan\<lparr>PlanPIndexes := demo_three @ [(''j_V_0'', demo_prev_j)]\<rparr>)) ''1.0.0'' [] 0
   = Some (Some \<lparr>PlanPIndexes.UUID = ''0'',
                 PlanPIndexes = demo_three @ [(''j_V_8dd93ce8'', demo_new_j)],
                 ImplVersion = ''1.0.0'', Warnings = [(''j'', [])]\<rparr>, 2)"
  by (simp add: CalcPlan_eval demo_engine_j_def demo_prev_j_def demo_new_j_def demo_three_def
        split_loop_run demo_partitions_def demo_whole_name hex_eval)

theorem C6_frozen_copied_forward_witness:
  "distinct (map fst (demo_three @ [(''j_V_0'', demo_prev_j)]))
   \<and> PlanFrozen (PlanParams (demo_indexDef 2 True))
   \<and> CalcPlan (demo_ext demo_partitions)
        (Some [(''i'', demo_indexDef 2 True), (''j'', demo_engine_j)]) (Some ())
        (Some (demo_plan\<lparr>PlanPIndexes := demo_three @ [(''j_V_0'', demo_prev_j)]\<rparr>))
        ''1.0.0'' [] 0
      = Some (Some \<lparr>PlanPIndexes.UUID = ''0'',
                    PlanPIndexes = demo_three @ [(''j_V_8dd93ce8'', demo_new_j)],
                    ImplVersion = ''1.0.0'', Warnings = [(''j'', [])]\<rparr>, 2)
   \<and> constructed_names (demo_ext demo_partitions) [] demo_engine_j = {''j_V_8dd93ce8''}
   \<and> constructed_names (demo_ext demo_partitions) [] (demo_indexDef 2 True) = {}
   \<and> map_of (demo_three @ [(''j_V_8dd93ce8'', demo_new_j)]) ''i_U_9361eb81''
       = Some (demo_pindex ''i_U_9361eb81'' ''1'' ''4,5,6,7'')
   \<and> CalcPlan_indexDef (demo_ext demo_partitions) ()
        (Some (demo_plan\<lparr>PlanPIndexes := demo_three @ [(''j_V_0'', demo_prev_j)]\<rparr>)) []
        (demo_indexDef 2 True) (demo_plan, 5)
      = Some (demo_plan\<lparr>PlanPIndexes := demo_three\<rparr>, 5)"
proof -
  let ?prev = "demo_plan\<lparr>PlanPIndexes := demo_three @ [(''j_V_0'', demo_prev_j)]\<rparr>"
  let ?defs = "[(''i'', demo_indexDef 2 True), (''j'', demo_engine_j)]"
  have dist: "distinct (map fst (PlanPIndexes ?prev))"
    by (simp add: demo_three_def)
  have frozen: "PlanFrozen (PlanParams (demo_indexDef 2 True))"
    by (simp add: demo_indexDef_def)
  have names_i: "constructed_names (demo_ext demo_partitions) [] (demo_indexDef 2 True) = {}"
    by (simp add: constructed_names_def demo_indexDef_def)
  have mem: "demo_indexDef 2 True \<in> snd ` set ?defs" by simp
  have uniq: "\<forall>d'\<in>snd ` set ?defs. \<forall>k'\<in>constructed_names (demo_ext demo_partitions) [] d'.
                (IndexDef.Name d' \<noteq> IndexDef.Name (demo_indexDef 2 True) \<or>
                 IndexDef.UUID d' \<noteq> IndexDef.UUID (demo_indexDef 2 True)) \<and>
                (\<forall>p. map_of (PlanPIndexes ?prev) k' = Some p \<longrightarrow>
                     \<not> (IndexName p = IndexDef.Name (demo_indexDef 2 True) \<and>
                        IndexUUID p = IndexDef.UUID (demo_indexDef 2 True)))"
    by (simp add: names_i demo_engine_j_names)
       (simp add: demo_engine_j_def demo_indexDef_def demo_three_def)
  note inst = C6_frozen_copied_forward [OF dist frozen,
      where ext = "demo_ext demo_partitions" and nds = "()" and server = "[]"
        and out = demo_plan and r = 5 and defs = "?defs" and version = "''1.0.0''"
        and ?rng0.0 = 0 and plan = "\<lparr>PlanPIndexes.UUID = ''0'',
                 PlanPIndexes = demo_three @ [(''j_V_8dd93ce8'', demo_new_j)],
                 ImplVersion = ''1.0.0'', Warnings = [(''j'', [])]\<rparr>" and rng' = 2
        and k = "''i_U_9361eb81''" and q = "demo_pindex ''i_U_9361eb81'' ''1'' ''4,5,6,7''"]
  from inst demo_frozen_run mem uniq
  have inplan: "map_of (demo_three @ [(''j_V_8dd93ce8'', demo_new_j)]) ''i_U_9361eb81''
                = Some (demo_pindex ''i_U_9361eb81'' ''1'' ''4,5,6,7'')"
    by (simp add: demo_three_def demo_pindex_def demo_indexDef_def)
  have step: "CalcPlan_indexDef (demo_ext demo_partitions) () (Some ?prev) []
                (demo_indexDef 2 True) (demo_plan, 5)
              = Some (demo_plan\<lparr>PlanPIndexes := demo_three\<rparr>, 5)"
    by (simp add: CalcPlan_eval demo_three_def demo_prev_j_def)
  from dist frozen demo_frozen_run demo_engine_j_names names_i inplan step
  show ?thesis by simp
qed

text \<open>
  Claim C8, as the code has it.  An index definition that is not plan-frozen and whose type
  has no entry in the registry, a nil entry, or an entry without \<open>New\<close> or without \<open>Open\<close>
  leaves the plan under construction as it is and raises nothing: the plan computed is the
  one computed without that index definition, wherever it comes in the iteration.
\<close>

theorem C8_uninstantiable_type_skipped:
  assumes "\<not> PlanFrozen (PlanParams d)"
      and "PIndexImplTypes ext (IndexDef.Type d) = None
           \<or> PIndexImplTypes ext (IndexDef.Type d) = Some None
           \<or> (\<exists>t. PIndexImplTypes ext (IndexDef.Type d) = Some (Some t)
                  \<and> (\<not> New_set t \<or> \<not> Open_set t))"
  shows "CalcPlan_indexDef ext nds prev server d st = Some st
         \<and> CalcPlan ext (Some (xs @ (n, d) # ys)) nodeDefs prev version server rng0
           = CalcPlan ext (Some (xs @ ys)) nodeDefs prev version server rng0"
proof -
  have step: "CalcPlan_indexDef ext nds' prev server d st' = Some st'" for nds' st'
    using assms by (auto simp: CalcPlan_indexDef_def)
  have loop: "CalcPlan_loop ext nds' prev server (map snd (xs @ (n, d) # ys)) st'
              = CalcPlan_loop ext nds' prev server (map snd (xs @ ys)) st'" for nds' st'
    by (simp add: CalcPlan_loop_append step split: option.splits)
  show ?thesis
    using step loop by (simp add: CalcPlan_def split: option.splits)
qed

theorem C8_uninstantiable_type_skipped_witness:
  "\<not> PlanFrozen (PlanParams (demo_alias False))
   \<and> PIndexImplTypes (demo_ext demo_partitions) (IndexDef.Type (demo_alias False))
       = Some (Some \<lparr>New_set = False, Open_set = False\<rparr>)
   \<and> CalcPlan_indexDef (demo_ext demo_partitions) () None [] (demo_alias False) (demo_plan, 0)
       = Some (demo_plan, 0)
   \<and> CalcPlan (demo_ext demo_partitions)
        (Some ([(''i'', demo_indexDef 2 True)] @ (''al'', demo_alias False) # [])) (Some ())
        (Some (demo_plan\<lparr>PlanPIndexes := demo_three\<rparr>)) ''1.0.0'' [] 0
      = CalcPlan (demo_ext demo_partitions)
        (Some ([(''i'', demo_indexDef 2 True)] @ [])) (Some ())
        (Some (demo_plan\<lparr>PlanPIndexes := demo_three\<rparr>)) ''1.0.0'' [] 0"
proof -
  have nf: "\<not> PlanFrozen (PlanParams (demo_alias False))"
    by (simp add: demo_alias_def demo_indexDef_def)
  have ty: "PIndexImplTypes (demo_ext demo_partitions) (IndexDef.Type (demo_alias False))
       = Some (Some \<lparr>New_set = False, Open_set = False\<rparr>)"
    by (simp add: demo_alias_def demo_indexDef_def demo_ext_def)
  have h: "PIndexImplTypes (demo_ext demo_partitions) (IndexDef.Type (demo_alias False)) = None
           \<or> PIndexImplTypes (demo_ext demo_partitions) (IndexDef.Type (demo_alias False))
              = Some None
           \<or> (\<exists>t. PIndexImplTypes (demo_ext demo_partitions) (IndexDef.Type (demo_alias False))
                    = Some (Some t) \<and> (\<not> New_set t \<or> \<not> Open_set t))"
    using ty by simp
  from C8_uninstantiable_type_skipped [OF nf h] nf ty show ?thesis
    by blast
qed

text \<open>
  The frozen test comes first: a plan-frozen alias whose name and UUID a previous
  PlanPIndex carries has that PlanPIndex copied into the new plan, which is empty without
  the alias.
\<close>

theorem C8_frozen_alias_counterexample:
  "PIndexImplTypes (demo_ext []) (IndexDef.Type (demo_alias True))
     = Some (Some \<lparr>New_set = False, Open_set = False\<rparr>)
   \<and> CalcPlan (demo_ext []) (Some [(''al'', demo_alias True)]) (Some ())
        (Some (demo_plan\<lparr>PlanPIndexes := [(''x'', demo_prev_al)]\<rparr>)) ''1.0.0'' [] 0
      = Some (Some \<lparr>PlanPIndexes.UUID = ''0'', PlanPIndexes = [(''x'', demo_prev_al)],
                    ImplVersion = ''1.0.0'', Warnings = []\<rparr>, 1)
   \<and> CalcPlan (demo_ext []) (Some []) (Some ())
        (Some (demo_plan\<lparr>PlanPIndexes := [(''x'', demo_prev_al)]\<rparr>)) ''1.0.0'' [] 0
      = Some (Some \<lparr>PlanPIndexes.UUID = ''0'', PlanPIndexes = [],
                    ImplVersion = ''1.0.0'', Warnings = []\<rparr>, 1)"
  by (simp add: CalcPlan_eval demo_alias_def demo_prev_al_def hex_eval)


section \<open>Consistency waits (pindex_consistency.go, pindex_impl_vlite.go)\<close>

subsection \<open>The queue of waiting requests\<close>

text \<open>
  A \<open>ConsistencyWaitReq\<close> carries the partition UUID, level and sequence number asked for
  and the channel \<open>DoneCh\<close> on which the answer comes; the channel is a reference, here
  the index of the channel in a store of channels.  (The field \<open>CancelCh\<close> is read only by
  \<open>ConsistencyWaitDone\<close>, which gets the channel as an argument.)  Sequence numbers are
  \<open>uint64\<close>.

  \<open>CwrQueue\<close> is a slice of requests with the methods that \<open>container/heap\<close> needs:
  \<open>Less\<close> compares the sequence numbers, \<open>Swap\<close> exchanges two positions, \<open>Push\<close>
  appends and \<open>Pop\<close> removes the last element.  \<open>heap_Push\<close> and \<open>heap_Pop\<close> are the
  library's \<open>heap.Push\<close> and \<open>heap.Pop\<close> over these methods, with its loops \<open>up\<close> and
  \<open>down\<close>; \<open>heap.Pop\<close> of an empty queue panics (\<open>None\<close>).
\<close>

type_synonym u64 = "64 word"

record ConsistencyWaitReq =
  PartitionUUID :: string
  ConsistencyLevel :: string
  ConsistencySeq :: u64
  DoneCh :: nat

type_synonym CwrQueue = "ConsistencyWaitReq list"

definition Less :: "CwrQueue \<Rightarrow> nat \<Rightarrow> nat \<Rightarrow> bool" where
  "Less pq i j = (ConsistencySeq (pq ! i) < ConsistencySeq (pq ! j))"

definition Swap :: "CwrQueue \<Rightarrow> nat \<Rightarrow> nat \<Rightarrow> CwrQueue" where
  "Swap pq i j = pq[i := pq ! j, j := pq ! i]"

function heap_up :: "CwrQueue \<Rightarrow> nat \<Rightarrow> CwrQueue" where
  "heap_up h j =
     (let i = (j - 1) div 2 in
      if i = j \<or> \<not> Less h j i then h else heap_up (Swap h i j) i)"
  by pat_completeness auto
termination
  by (relation "measure snd") auto

function heap_down :: "CwrQueue \<Rightarrow> nat \<Rightarrow> nat \<Rightarrow> CwrQueue" where
  "heap_down h i n =
     (let j1 = 2 * i + 1 in
      if j1 \<ge> n then h
      else let j = (if j1 + 1 < n \<and> Less h (j1 + 1) j1 then j1 + 1 else j1) in
        if \<not> Less h j i then h else heap_down (Swap h i j) j n)"
  by pat_completeness auto
termination
  by (relation "measure (\<lambda>(h, i, n). n - i)") auto

declare heap_up.simps [simp del] heap_down.simps [simp del]

definition heap_Push :: "CwrQueue \<Rightarrow> ConsistencyWaitReq \<Rightarrow> CwrQueue" where
  "heap_Push h x = (let h' = h @ [x] in heap_up h' (length h' - 1))"

definition heap_Pop :: "CwrQueue \<Rightarrow> (ConsistencyWaitReq \<times> CwrQueue) option" where
  "heap_Pop h =
     (if length h = 0 then None
      else let n = length h - 1;
               h' = heap_down (Swap h 0 n) 0 n
           in Some (h' ! n, take n h'))"

subsection \<open>Channels, partitions and the store\<close>

text \<open>
  The errors the modelled functions return, by the place that makes them, and the ways a
  goroutine can fail to go on: a panic (closing a closed channel, sending on a closed
  channel, popping an empty queue) or a send that blocks.
\<close>

datatype error =
    UnsupportedConsistencyLevel string
  | AlreadyClosed
  | MismatchedPartition string
  | CloseUnlocked
  | WaitDoneCancelled
  | StoreError string
  | ErrorConsistencyWait error string "(string \<times> u64 list) list"

datatype fault = Panic | Blocks

text \<open>
  A channel of errors with a buffer of one (\<open>make(chan error, 1)\<close>).  Receiving takes the
  buffered value if there is one, yields nil (\<open>None\<close>) on a closed empty channel, and
  otherwise is not ready.
\<close>

record chan =
  buffer :: "error list"
  closed :: bool

definition make_chan :: chan where
  "make_chan = \<lparr>buffer = [], closed = False\<rparr>"

definition chan_send :: "chan \<Rightarrow> error \<Rightarrow> fault + chan" where
  "chan_send c v =
     (if closed c then Inl Panic
      else if length (buffer c) \<ge> 1 then Inl Blocks
      else Inr (c\<lparr>buffer := buffer c @ [v]\<rparr>))"

definition chan_close :: "chan \<Rightarrow> fault + chan" where
  "chan_close c = (if closed c then Inl Panic else Inr (c\<lparr>closed := True\<rparr>))"

definition chan_recv :: "chan \<Rightarrow> (error option \<times> chan) option" where
  "chan_recv c =
     (case buffer c of
        v # vs \<Rightarrow> Some (Some v, c\<lparr>buffer := vs\<rparr>)
      | [] \<Rightarrow> if closed c then Some (None, c) else None)"

text \<open>
  The fields of \<open>VLitePartition\<close> and \<open>VLite\<close> that the modelled functions use.  Of the
  store and the file only whether they are nil matters (\<open>store\<close> false after a close,
  \<open>file'\<close> false for a memory-only store).  The map \<open>partitions\<close> holds the partition
  objects; a partition is addressed by its name.  \<open>chans\<close> is the store of the channels
  made so far and \<open>next_chan\<close> the next free index.  All functions below run holding the
  mutex \<open>m\<close> of the \<open>VLite\<close>.
\<close>

record VLitePartition =
  partition :: string
  seqMax :: u64
  seqMaxBatch :: u64
  seqSnapEnd :: u64
  lastUUID :: string
  cwrQueue :: CwrQueue

record VLite =
  store :: bool
  file' :: bool
  partitions :: "(string \<times> VLitePartition) list"
  chans :: "nat \<Rightarrow> chan"
  next_chan :: nat

definition zero_partition :: "string \<Rightarrow> VLitePartition" where
  "zero_partition name =
     \<lparr>partition = name, seqMax = 0, seqMaxBatch = 0, seqSnapEnd = 0, lastUUID = [],
      cwrQueue = []\<rparr>"

definition getPartitionUnlocked :: "VLite \<Rightarrow> string \<Rightarrow> error + VLitePartition \<times> VLite" where
  "getPartitionUnlocked t name =
     (if \<not> store t then Inl AlreadyClosed
      else case map_of (partitions t) name of
             Some bdp \<Rightarrow> Inr (bdp, t)
           | None \<Rightarrow>
               (let bdp = zero_partition name
                in Inr (bdp, t\<lparr>partitions := AList.update name bdp (partitions t)\<rparr>)))"

text \<open>
  \<open>NewVLite\<close> fails when the store cannot be made and otherwise starts with no
  partitions.
\<close>

definition NewVLite :: "bool \<Rightarrow> error option \<Rightarrow> error + VLite" where
  "NewVLite vfile store_err =
     (case store_err of
        Some err \<Rightarrow> Inl err
      | None \<Rightarrow> Inr \<lparr>store = True, file' = vfile, partitions = [],
                     chans = (\<lambda>_. make_chan), next_chan = 0\<rparr>)"

text \<open>
  \<open>closeUnlocked\<close> empties the map, drops the store and starts a goroutine that, holding
  the mutex, sends an error to every request still queued in the old partitions and closes
  its channel; the goroutine is run here at once.  \<open>Rollback\<close> closes in this way; the
  removal of the files and the callback \<open>restart\<close>, which has the manager build the
  instance anew through \<open>NewVLite\<close>, are not part of the state.
\<close>

fun drain_queue :: "error \<Rightarrow> CwrQueue \<Rightarrow> (nat \<Rightarrow> chan) \<Rightarrow> fault + (nat \<Rightarrow> chan)" where
  "drain_queue err [] cs = Inr cs"
| "drain_queue err (cwr # q) cs =
     (case chan_send (cs (DoneCh cwr)) err of
        Inl f \<Rightarrow> Inl f
      | Inr c \<Rightarrow>
          (case chan_close c of
             Inl f \<Rightarrow> Inl f
           | Inr c' \<Rightarrow> drain_queue err q (cs(DoneCh cwr := c'))))"

fun drain_partitions ::
  "error \<Rightarrow> (string \<times> VLitePartition) list \<Rightarrow> (nat \<Rightarrow> chan) \<Rightarrow> fault + (nat \<Rightarrow> chan)" where
  "drain_partitions err [] cs = Inr cs"
| "drain_partitions err (nb # others) cs =
     (case drain_queue err (cwrQueue (snd nb)) cs of
        Inl f \<Rightarrow> Inl f
      | Inr cs' \<Rightarrow> drain_partitions err others cs')"

definition closeUnlocked :: "VLite \<Rightarrow> fault + error option \<times> VLite" where
  "closeUnlocked t =
     (if \<not> store t then Inr (None, t)
      else case drain_partitions CloseUnlocked (partitions t) (chans t) of
             Inl f \<Rightarrow> Inl f
           | Inr cs \<Rightarrow> Inr (None, t\<lparr>partitions := [], store := False, chans := cs\<rparr>))"

definition Rollback :: "VLite \<Rightarrow> string \<Rightarrow> u64 \<Rightarrow> fault + error option \<times> VLite" where
  "Rollback t name rollbackSeq = closeUnlocked t"

text \<open>
  \<open>ConsistencyWait\<close> in two steps.  \<open>ConsistencyWait_enter\<close> is the part up to the
  release of the mutex: it returns at once for the empty level, an unknown level or a closed
  store, and otherwise makes the request with a new channel and answers it, queues it, or
  closes its channel.  \<open>ConsistencyWaitDone\<close> is the \<open>select\<close> on the cancel channel and
  the channel of the request: \<open>cancel_ready\<close> says whether the cancel channel is closed (or
  has a value), \<open>take_cancel\<close> which branch is taken when both are ready, and \<open>seqStart\<close>
  and \<open>seqEnd\<close> are what \<open>currSeq\<close> returns before the \<open>select\<close> and in its cancel
  branch; the result is \<open>None\<close> as long as neither channel is ready.
  \<open>ConsistencyWait_return\<close> is the call that ends \<open>ConsistencyWait\<close>, where \<open>currSeq\<close>
  reads \<open>seqMaxBatch\<close> of the partition object.
\<close>

datatype wait_start = Returned "error option" | Waiting ConsistencyWaitReq VLitePartition

definition ConsistencyWait_enter ::
  "VLite \<Rightarrow> string \<Rightarrow> string \<Rightarrow> string \<Rightarrow> u64 \<Rightarrow> fault + wait_start \<times> VLite" where
  "ConsistencyWait_enter t name partitionUUID consistencyLevel consistencySeq =
     (if consistencyLevel = [] then Inr (Returned None, t)
      else if consistencyLevel \<noteq> ''at_plus''
      then Inr (Returned (Some (UnsupportedConsistencyLevel consistencyLevel)), t)
      else
        (let cwr = \<lparr>PartitionUUID = partitionUUID, ConsistencyLevel = consistencyLevel,
                    ConsistencySeq = consistencySeq, DoneCh = next_chan t\<rparr>;
             t1 = t\<lparr>chans := (chans t)(next_chan t := make_chan),
                    next_chan := Suc (next_chan t)\<rparr>
         in case getPartitionUnlocked t1 name of
              Inl err \<Rightarrow> Inr (Returned (Some err), t1)
            | Inr (bdp, t2) \<Rightarrow>
                if PartitionUUID cwr \<noteq> [] \<and> PartitionUUID cwr \<noteq> lastUUID bdp then
                  (case chan_send (chans t2 (DoneCh cwr)) (MismatchedPartition (lastUUID bdp)) of
                     Inl f \<Rightarrow> Inl f
                   | Inr c \<Rightarrow>
                       (case chan_close c of
                          Inl f \<Rightarrow> Inl f
                        | Inr c' \<Rightarrow>
                            Inr (Waiting cwr bdp, t2\<lparr>chans := (chans t2)(DoneCh cwr := c')\<rparr>)))
                else if ConsistencySeq cwr > seqMaxBatch bdp then
                  (let bdp' = bdp\<lparr>cwrQueue := heap_Push (cwrQueue bdp) cwr\<rparr>
                   in Inr (Waiting cwr bdp',
                           t2\<lparr>partitions := AList.update name bdp' (partitions t2)\<rparr>))
                else
                  (case chan_close (chans t2 (DoneCh cwr)) of
                     Inl f \<Rightarrow> Inl f
                   | Inr c' \<Rightarrow>
                       Inr (Waiting cwr bdp, t2\<lparr>chans := (chans t2)(DoneCh cwr := c')\<rparr>))))"

definition ConsistencyWaitDone ::
  "string \<Rightarrow> bool \<Rightarrow> bool \<Rightarrow> chan \<Rightarrow> u64 \<Rightarrow> u64 \<Rightarrow> (error option \<times> chan) option" where
  "ConsistencyWaitDone name cancel_ready take_cancel doneCh seqStart seqEnd =
     (let cancelled = Some (ErrorConsistencyWait WaitDoneCancelled ''cancelled''
                              [(name, [seqStart, seqEnd])])
      in case chan_recv doneCh of
           None \<Rightarrow> if cancel_ready then Some (cancelled, doneCh) else None
         | Some (err, doneCh') \<Rightarrow>
             if cancel_ready \<and> take_cancel then Some (cancelled, doneCh)
             else Some (err, doneCh'))"

definition ConsistencyWait_return ::
  "string \<Rightarrow> bool \<Rightarrow> bool \<Rightarrow> chan \<Rightarrow> VLitePartition \<Rightarrow> VLitePartition
   \<Rightarrow> (error option \<times> chan) option" where
  "ConsistencyWait_return name cancel_ready take_cancel doneCh bdp_start bdp_end =
     ConsistencyWaitDone name cancel_ready take_cancel doneCh
       (seqMaxBatch bdp_start) (seqMaxBatch bdp_end)"

text \<open>
  \<open>applyBatchUnlocked\<close> flushes the store unless it is memory-only (\<open>flush\<close> is the
  outcome), sets \<open>seqMaxBatch\<close> to \<open>seqMax\<close> and pops and closes the requests that are
  satisfied.  \<open>updateSeqUnlocked\<close> raises \<open>seqMax\<close> and applies the batch when the
  snapshot end is reached.
\<close>

function applyBatch_loop ::
  "VLitePartition \<Rightarrow> (nat \<Rightarrow> chan) \<Rightarrow> fault + VLitePartition \<times> (nat \<Rightarrow> chan)" where
  "applyBatch_loop t cs =
     (if length (cwrQueue t) > 0 \<and> ConsistencySeq (cwrQueue t ! 0) \<le> seqMaxBatch t then
        (case heap_Pop (cwrQueue t) of
           None \<Rightarrow> Inl Panic
         | Some (cwr, q) \<Rightarrow>
             (case chan_close (cs (DoneCh cwr)) of
                Inl f \<Rightarrow> Inl f
              | Inr c' \<Rightarrow> applyBatch_loop (t\<lparr>cwrQueue := q\<rparr>) (cs(DoneCh cwr := c'))))
      else Inr (t, cs))"
  by pat_completeness auto
termination
proof (relation "measure (\<lambda>(t, cs). length (cwrQueue t))")
  show "wf (measure (\<lambda>(t, cs). length (cwrQueue t)))" by simp
next
  fix t :: VLitePartition and cs :: "nat \<Rightarrow> chan" and x2 x y xa
  assume "0 < length (cwrQueue t) \<and> ConsistencySeq (cwrQueue t ! 0) \<le> seqMaxBatch t"
    and "heap_Pop (cwrQueue t) = Some x2" and "(x, y) = x2"
  then have "length y \<le> length (cwrQueue t) - 1" and "0 < length (cwrQueue t)"
    by (auto simp: heap_Pop_def Let_def split: if_splits)
  then have "length y < length (cwrQueue t)" by (cases "cwrQueue t") simp_all
  then show "((t\<lparr>cwrQueue := y\<rparr>, cs(DoneCh x := xa)), (t, cs))
             \<in> measure (\<lambda>(t, cs). length (cwrQueue t))"
    by simp
qed

declare applyBatch_loop.simps [simp del]

definition applyBatchUnlocked ::
  "bool \<Rightarrow> error option \<Rightarrow> VLitePartition \<Rightarrow> (nat \<Rightarrow> chan)
   \<Rightarrow> fault + error option \<times> VLitePartition \<times> (nat \<Rightarrow> chan)" where
  "applyBatchUnlocked vfile flush t cs =
     (if vfile \<and> flush \<noteq> None then Inr (flush, t, cs)
      else case applyBatch_loop (t\<lparr>seqMaxBatch := seqMax t\<rparr>) cs of
             Inl f \<Rightarrow> Inl f
           | Inr (t', cs') \<Rightarrow> Inr (None, t', cs'))"

definition updateSeqUnlocked ::
  "bool \<Rightarrow> error option \<Rightarrow> u64 \<Rightarrow> VLitePartition \<Rightarrow> (nat \<Rightarrow> chan)
   \<Rightarrow> fault + error option \<times> VLitePartition \<times> (nat \<Rightarrow> chan)" where
  "updateSeqUnlocked vfile flush seq t cs =
     (let t1 = (if seqMax t < seq then t\<lparr>seqMax := seq\<rparr> else t)
      in if seq < seqSnapEnd t1 then Inr (None, t1, cs)
         else applyBatchUnlocked vfile flush t1 cs)"

text \<open>
  The methods of \<open>Dest\<close> on a partition.  In \<open>DataUpdate\<close>, \<open>early\<close> is the outcome of
  the part that stores the document: \<open>Some r\<close> when it returns \<open>r\<close> before the sequence
  number is looked at.  \<open>OpaqueGet\<close> gets the outcome of reading the opaque value (an
  error, or the UUID that \<open>parseOpaqueToUUID\<close> finds in it) and of reading the stored
  sequence number; \<open>OpaqueSet\<close> the UUID in the value and the outcome of the write.
\<close>

datatype seq_read = ReadFails error | NoBytes | WrongSize | EightBytes u64

definition DataUpdate ::
  "bool \<Rightarrow> error option option \<Rightarrow> error option \<Rightarrow> u64 \<Rightarrow> VLitePartition \<Rightarrow> (nat \<Rightarrow> chan)
   \<Rightarrow> fault + error option \<times> VLitePartition \<times> (nat \<Rightarrow> chan)" where
  "DataUpdate vfile early flush seq t cs =
     (case early of
        Some r \<Rightarrow> Inr (r, t, cs)
      | None \<Rightarrow> updateSeqUnlocked vfile flush seq t cs)"

definition DataDelete ::
  "bool \<Rightarrow> error option \<Rightarrow> u64 \<Rightarrow> VLitePartition \<Rightarrow> (nat \<Rightarrow> chan)
   \<Rightarrow> fault + error option \<times> VLitePartition \<times> (nat \<Rightarrow> chan)" where
  "DataDelete vfile flush seq t cs = updateSeqUnlocked vfile flush seq t cs"

definition SnapshotStart ::
  "bool \<Rightarrow> error option \<Rightarrow> u64 \<Rightarrow> u64 \<Rightarrow> VLitePartition \<Rightarrow> (nat \<Rightarrow> chan)
   \<Rightarrow> fault + error option \<times> VLitePartition \<times> (nat \<Rightarrow> chan)" where
  "SnapshotStart vfile flush snapStart snapEnd t cs =
     (case applyBatchUnlocked vfile flush t cs of
        Inl f \<Rightarrow> Inl f
      | Inr (Some err, t', cs') \<Rightarrow> Inr (Some err, t', cs')
      | Inr (None, t', cs') \<Rightarrow> Inr (None, t'\<lparr>seqSnapEnd := snapEnd\<rparr>, cs'))"

definition OpaqueGet ::
  "error + string \<Rightarrow> seq_read \<Rightarrow> VLitePartition \<Rightarrow> (error + u64) \<times> VLitePartition" where
  "OpaqueGet opaque seqBuf t =
     (case opaque of
        Inl err \<Rightarrow> (Inl err, t)
      | Inr uuid \<Rightarrow>
          (let t1 = t\<lparr>lastUUID := uuid\<rparr>
           in if seqMax t1 \<le> 0 then
                (case seqBuf of
                   ReadFails err \<Rightarrow> (Inl err, t1)
                 | NoBytes \<Rightarrow> (Inr 0, t1)
                 | WrongSize \<Rightarrow> (Inl (StoreError ''vlite: unexpected size for seqMax bytes''), t1)
                 | EightBytes v \<Rightarrow> (Inr v, t1\<lparr>seqMax := v\<rparr>))
              else (Inr (seqMax t1), t1)))"

definition OpaqueSet :: "string \<Rightarrow> error option \<Rightarrow> VLitePartition \<Rightarrow> error option \<times> VLitePartition" where
  "OpaqueSet uuid set_result t = (set_result, t\<lparr>lastUUID := uuid\<rparr>)"

text \<open>
  One call of a method of \<open>Dest\<close>, and a call through the handle that \<open>Dest(partition)\<close>
  returns, which is the object in the map (made when missing; an error when the store is
  closed).
\<close>

datatype dest_call =
    CallDataUpdate "error option option" u64
  | CallDataDelete u64
  | CallSnapshotStart u64 u64
  | CallOpaqueGet "error + string" seq_read
  | CallOpaqueSet string "error option"

fun dest_step ::
  "bool \<Rightarrow> error option \<Rightarrow> dest_call \<Rightarrow> VLitePartition \<Rightarrow> (nat \<Rightarrow> chan)
   \<Rightarrow> fault + error option \<times> VLitePartition \<times> (nat \<Rightarrow> chan)" where
  "dest_step vfile flush (CallDataUpdate early seq) t cs = DataUpdate vfile early flush seq t cs"
| "dest_step vfile flush (CallDataDelete seq) t cs = DataDelete vfile flush seq t cs"
| "dest_step vfile flush (CallSnapshotStart snapStart snapEnd) t cs =
     SnapshotStart vfile flush snapStart snapEnd t cs"
| "dest_step vfile flush (CallOpaqueGet opaque seqBuf) t cs =
     (case OpaqueGet opaque seqBuf t of
        (Inl err, t') \<Rightarrow> Inr (Some err, t', cs)
      | (Inr v, t') \<Rightarrow> Inr (None, t', cs))"
| "dest_step vfile flush (CallOpaqueSet uuid set_result) t cs =
     (case OpaqueSet uuid set_result t of (r, t') \<Rightarrow> Inr (r, t', cs))"

definition Dest_call ::
  "VLite \<Rightarrow> string \<Rightarrow> error option \<Rightarrow> dest_call \<Rightarrow> fault + error option \<times> VLite" where
  "Dest_call t name flush call =
     (case getPartitionUnlocked t name of
        Inl err \<Rightarrow> Inr (Some err, t)
      | Inr (bdp, t2) \<Rightarrow>
          (case dest_step (file' t2) flush call bdp (chans t2) of
             Inl f \<Rightarrow> Inl f
           | Inr (err, bdp', cs') \<Rightarrow>
               Inr (err, t2\<lparr>partitions := AList.update name bdp' (partitions t2),
                             chans := cs'\<rparr>)))"

text \<open>
  Calls that do not close the store, and runs of them in any order.
\<close>

datatype vlite_call =
    CallDest string "error option" dest_call
  | CallConsistencyWait string string string u64

fun vlite_step :: "VLite \<Rightarrow> vlite_call \<Rightarrow> fault + VLite" where
  "vlite_step t (CallDest name flush call) =
     (case Dest_call t name flush call of Inl f \<Rightarrow> Inl f | Inr (err, t') \<Rightarrow> Inr t')"
| "vlite_step t (CallConsistencyWait name partitionUUID consistencyLevel consistencySeq) =
     (case ConsistencyWait_enter t name partitionUUID consistencyLevel consistencySeq of
        Inl f \<Rightarrow> Inl f
      | Inr (r, t') \<Rightarrow> Inr t')"

fun vlite_run :: "VLite \<Rightarrow> vlite_call list \<Rightarrow> fault + VLite" where
  "vlite_run t [] = Inr t"
| "vlite_run t (c # cs) =
     (case vlite_step t c of Inl f \<Rightarrow> Inl f | Inr t' \<Rightarrow> vlite_run t' cs)"

subsection \<open>The queue is a heap\<close>

text \<open>
  The heap order on a slice: no element is smaller than its parent, so the first element
  is a smallest one.  \<open>heap_Push\<close> and \<open>heap_Pop\<close> keep it, \<open>heap_Push\<close> adds its
  argument and \<open>heap_Pop\<close> removes the first element.
\<close>

definition key :: "CwrQueue \<Rightarrow> nat \<Rightarrow> u64" where
  "key h j = ConsistencySeq (h ! j)"

definition is_heap :: "CwrQueue \<Rightarrow> bool" where
  "is_heap h \<longleftrightarrow> (\<forall>j. 0 < j \<and> j < length h \<longrightarrow> key h ((j - 1) div 2) \<le> key h j)"

definition heap_except_up :: "CwrQueue \<Rightarrow> nat \<Rightarrow> bool" where
  "heap_except_up h j \<longleftrightarrow>
     (\<forall>k. 0 < k \<and> k < length h \<and> k \<noteq> j \<longrightarrow> key h ((k - 1) div 2) \<le> key h k) \<and>
     (\<forall>k. 0 < j \<and> k < length h \<and> (k - 1) div 2 = j \<and> 0 < k \<longrightarrow>
          key h ((j - 1) div 2) \<le> key h k)"

lemma length_Swap [simp]: "length (Swap h i j) = length h"
  by (simp add: Swap_def)

lemma key_Swap:
  "i < length h \<Longrightarrow> j < length h \<Longrightarrow>
   key (Swap h i j) k = (if k = j then key h i else if k = i then key h j else key h k)"
  by (auto simp: key_def Swap_def nth_list_update)

lemma mset_Swap: "i < length h \<Longrightarrow> j < length h \<Longrightarrow> mset (Swap h i j) = mset h"
  by (simp add: Swap_def mset_swap)

lemma length_heap_up [simp]: "length (heap_up h j) = length h"
  by (induction h j rule: heap_up.induct) (subst heap_up.simps, simp add: Let_def)

lemma mset_heap_up: "j < length h \<Longrightarrow> mset (heap_up h j) = mset h"
proof (induction h j rule: heap_up.induct)
  case (1 h j)
  show ?case
  proof (cases "(j - 1) div 2 = j \<or> \<not> Less h j ((j - 1) div 2)")
    case True
    then show ?thesis by (subst heap_up.simps) (simp add: Let_def)
  next
    case False
    have lt: "(j - 1) div 2 < length h" using "1.prems" by simp
    from False "1.IH" [OF refl] lt
    have "mset (heap_up (Swap h ((j - 1) div 2) j) ((j - 1) div 2))
          = mset (Swap h ((j - 1) div 2) j)" by simp
    with False lt "1.prems" show ?thesis
      by (subst heap_up.simps) (simp add: Let_def mset_Swap)
  qed
qed

lemma parent_lt: "0 < k \<Longrightarrow> (k - 1) div 2 < (k::nat)"
  by arith

lemma parent_iff: "0 < k \<Longrightarrow> ((k - 1) div 2 = i \<longleftrightarrow> k = 2 * i + 1 \<or> k = 2 * i + (2::nat))"
  by arith

lemma is_heap_root_min:
  assumes "is_heap h" "j < length h"
  shows "key h 0 \<le> key h j"
  using assms(2)
proof (induction j rule: less_induct)
  case (less j)
  show ?case
  proof (cases "j = 0")
    case True
    then show ?thesis by simp
  next
    case False
    then have "(j - 1) div 2 < j" by (simp add: parent_lt)
    moreover from this less.prems have "(j - 1) div 2 < length h" by simp
    ultimately have "key h 0 \<le> key h ((j - 1) div 2)" by (rule less.IH)
    moreover from assms(1) False less.prems have "key h ((j - 1) div 2) \<le> key h j"
      by (simp add: is_heap_def)
    ultimately show ?thesis by simp
  qed
qed

lemma heap_up_is_heap:
  "j < length h \<Longrightarrow> heap_except_up h j \<Longrightarrow> is_heap (heap_up h j)"
proof (induction h j rule: heap_up.induct)
  case (1 h j)
  define i where "i = (j - 1) div 2"
  have unfold: "heap_up h j = (if i = j \<or> \<not> Less h j i then h else heap_up (Swap h i j) i)"
    by (subst heap_up.simps) (simp add: Let_def i_def)
  show ?case
  proof (cases "i = j")
    case True
    then have j0: "j = 0" using parent_lt [of j] by (cases "j = 0") (simp_all add: i_def)
    with "1.prems"(2) have "is_heap h"
      by (auto simp: heap_except_up_def is_heap_def)
    with True show ?thesis by (simp add: unfold)
  next
    case ne: False
    then have jpos: "0 < j" by (cases "j = 0") (simp_all add: i_def)
    then have ij: "i < j" unfolding i_def by (rule parent_lt)
    with "1.prems"(1) have il: "i < length h" by simp
    from "1.prems"(2)
    have e1: "\<And>k. 0 < k \<Longrightarrow> k < length h \<Longrightarrow> k \<noteq> j \<Longrightarrow> key h ((k - 1) div 2) \<le> key h k"
      and e2: "\<And>k. k < length h \<Longrightarrow> (k - 1) div 2 = j \<Longrightarrow> 0 < k \<Longrightarrow> key h i \<le> key h k"
      using jpos by (auto simp: heap_except_up_def i_def)
    show ?thesis
    proof (cases "Less h j i")
      case False
      then have le: "key h i \<le> key h j" by (simp add: Less_def key_def)
      have "is_heap h"
        unfolding is_heap_def
      proof (intro allI impI)
        fix k assume k: "0 < k \<and> k < length h"
        show "key h ((k - 1) div 2) \<le> key h k"
        proof (cases "k = j")
          case True
          with le show ?thesis by (simp add: i_def)
        next
          case False
          with e1 k show ?thesis by simp
        qed
      qed
      with False show ?thesis by (simp add: unfold)
    next
      case True
      then have lt: "key h j < key h i" by (simp add: Less_def key_def)
      define h' where "h' = Swap h i j"
      have len: "length h' = length h" by (simp add: h'_def)
      have k': "key h' k = (if k = j then key h i else if k = i then key h j else key h k)" for k
        unfolding h'_def using il "1.prems"(1) by (rule key_Swap)
      have c1: "key h' ((k - 1) div 2) \<le> key h' k"
        if k: "0 < k" "k < length h" "k \<noteq> i" for k
      proof (cases "k = j")
        case True
        then have "(k - 1) div 2 = i" by (simp add: i_def)
        with lt ne True show ?thesis by (simp add: k')
      next
        case kj: False
        define pk where "pk = (k - 1) div 2"
        have e: "key h pk \<le> key h k" unfolding pk_def by (rule e1 [OF k(1) k(2) kj])
        show ?thesis
          unfolding pk_def [symmetric]
        proof (cases "pk = j")
          case True
          then have "key h i \<le> key h k" using e2 [OF k(2) _ k(1)] by (simp add: pk_def)
          with True kj k(3) ne show "key h' pk \<le> key h' k" by (simp add: k')
        next
          case pj: False
          show "key h' pk \<le> key h' k"
          proof (cases "pk = i")
            case True
            with e lt kj k(3) pj show ?thesis by (simp add: k')
          next
            case False
            with e pj kj k(3) show ?thesis by (simp add: k')
          qed
        qed
      qed
      have c2: "key h' ((i - 1) div 2) \<le> key h' k"
        if k: "0 < i" "k < length h" "(k - 1) div 2 = i" "0 < k" for k
      proof -
        define pi where "pi = (i - 1) div 2"
        have pi: "pi < i" unfolding pi_def using k(1) by (rule parent_lt)
        with ij have n1: "pi \<noteq> j" "pi \<noteq> i" by simp_all
        have top: "key h pi \<le> key h i"
          unfolding pi_def using e1 [OF k(1) il] ij by simp
        have ki: "k \<noteq> i" using parent_lt [OF k(4)] k(3) by simp
        show ?thesis
          unfolding pi_def [symmetric]
        proof (cases "k = j")
          case True
          with top n1 ne show "key h' pi \<le> key h' k" by (simp add: k')
        next
          case False
          from e1 [OF k(4) k(2) False] k(3) have "key h i \<le> key h k" by simp
          with top False ki n1 show "key h' pi \<le> key h' k" by (simp add: k')
        qed
      qed
      have "heap_except_up h' i"
        unfolding heap_except_up_def len using c1 c2 by simp
      moreover have "i < length h'" using il len by simp
      ultimately have "is_heap (heap_up h' i)"
        using "1.IH" [OF i_def [symmetric, THEN sym]] ne True
        unfolding h'_def i_def by simp
      with ne True show ?thesis by (simp add: unfold h'_def)
    qed
  qed
qed

lemma heap_Push_is_heap:
  assumes "is_heap h"
  shows "is_heap (heap_Push h x)"
proof -
  have "heap_except_up (h @ [x]) (length h)"
    unfolding heap_except_up_def
  proof (intro conjI allI impI)
    fix k
    assume k: "0 < k \<and> k < length (h @ [x]) \<and> k \<noteq> length h"
    then have kl: "k < length h" by simp
    with parent_lt [of k] k have "(k - 1) div 2 < length h" by simp
    with assms k kl show "key (h @ [x]) ((k - 1) div 2) \<le> key (h @ [x]) k"
      by (simp add: is_heap_def key_def nth_append)
  next
    fix k
    assume k: "0 < length h \<and> k < length (h @ [x]) \<and> (k - 1) div 2 = length h \<and> 0 < k"
    with parent_lt [of k] have False by simp
    then show "key (h @ [x]) ((length h - 1) div 2) \<le> key (h @ [x]) k" ..
  qed
  then show ?thesis
    by (simp add: heap_Push_def Let_def heap_up_is_heap)
qed

lemma mset_heap_Push: "mset (heap_Push h x) = add_mset x (mset h)"
  by (simp add: heap_Push_def Let_def mset_heap_up)

definition heap_upto :: "nat \<Rightarrow> CwrQueue \<Rightarrow> bool" where
  "heap_upto n h \<longleftrightarrow> (\<forall>k. 0 < k \<and> k < n \<longrightarrow> key h ((k - 1) div 2) \<le> key h k)"

definition heap_except_down :: "CwrQueue \<Rightarrow> nat \<Rightarrow> nat \<Rightarrow> bool" where
  "heap_except_down h i n \<longleftrightarrow>
     (\<forall>k. 0 < k \<and> k < n \<and> (k - 1) div 2 \<noteq> i \<longrightarrow> key h ((k - 1) div 2) \<le> key h k) \<and>
     (\<forall>k. 0 < i \<and> 0 < k \<and> k < n \<and> (k - 1) div 2 = i \<longrightarrow>
          key h ((i - 1) div 2) \<le> key h k)"

lemma is_heap_upto: "is_heap h \<longleftrightarrow> heap_upto (length h) h"
  by (simp add: is_heap_def heap_upto_def)

lemma length_heap_down [simp]: "length (heap_down h i n) = length h"
  by (induction h i n rule: heap_down.induct) (subst heap_down.simps, simp add: Let_def)

lemma heap_down_props:
  "n \<le> length h \<Longrightarrow> i < n \<Longrightarrow>
   mset (heap_down h i n) = mset h \<and> (\<forall>m\<ge>n. heap_down h i n ! m = h ! m)"
proof (induction h i n rule: heap_down.induct)
  case (1 h i n)
  define j1 where "j1 = 2 * i + 1"
  define j where "j = (if j1 + 1 < n \<and> Less h (j1 + 1) j1 then j1 + 1 else j1)"
  have j1_eq: "j1 = 2 * i + 1" by (simp add: j1_def)
  have j_eq: "j = (if j1 + 1 < n \<and> Less h (j1 + 1) j1 then j1 + 1 else j1)"
    by (simp add: j_def)
  have unfold: "heap_down h i n =
      (if j1 \<ge> n then h else if \<not> Less h j i then h else heap_down (Swap h i j) j n)"
    by (subst heap_down.simps) (simp add: Let_def j1_def j_def)
  show ?case
  proof (cases "j1 \<ge> n \<or> \<not> Less h j i")
    case True
    then show ?thesis by (auto simp: unfold)
  next
    case False
    then have nle: "\<not> n \<le> j1" and lji: "\<not> \<not> Less h j i" by simp_all
    from nle have jn: "j < n" by (auto simp: j_def)
    have ih: "mset (heap_down (Swap h i j) j n) = mset (Swap h i j) \<and>
              (\<forall>m\<ge>n. heap_down (Swap h i j) j n ! m = Swap h i j ! m)"
      using "1.IH" [OF j1_eq nle j_eq lji] "1.prems" jn by simp
    have sw: "\<forall>m\<ge>n. Swap h i j ! m = h ! m"
      using jn "1.prems" by (simp add: Swap_def)
    from ih sw False "1.prems" jn show ?thesis
      by (simp add: unfold mset_Swap)
  qed
qed

lemma heap_down_heap:
  "n \<le> length h \<Longrightarrow> i < n \<Longrightarrow> heap_except_down h i n \<Longrightarrow> heap_upto n (heap_down h i n)"
proof (induction h i n rule: heap_down.induct)
  case (1 h i n)
  define j1 where "j1 = 2 * i + 1"
  define j where "j = (if j1 + 1 < n \<and> Less h (j1 + 1) j1 then j1 + 1 else j1)"
  have j1_eq: "j1 = 2 * i + 1" by (simp add: j1_def)
  have j_eq: "j = (if j1 + 1 < n \<and> Less h (j1 + 1) j1 then j1 + 1 else j1)"
    by (simp add: j_def)
  have unfold: "heap_down h i n =
      (if j1 \<ge> n then h else if \<not> Less h j i then h else heap_down (Swap h i j) j n)"
    by (subst heap_down.simps) (simp add: Let_def j1_def j_def)
  from "1.prems"(3)
  have e1: "\<And>k. 0 < k \<Longrightarrow> k < n \<Longrightarrow> (k - 1) div 2 \<noteq> i \<Longrightarrow> key h ((k - 1) div 2) \<le> key h k"
    and e2: "\<And>k. 0 < i \<Longrightarrow> 0 < k \<Longrightarrow> k < n \<Longrightarrow> (k - 1) div 2 = i
                 \<Longrightarrow> key h ((i - 1) div 2) \<le> key h k"
    by (auto simp: heap_except_down_def)
  have child: "(k - 1) div 2 = i \<longleftrightarrow> k = j1 \<or> k = j1 + 1" if "0 < k" for k
    using parent_iff [OF that, of i] by (auto simp: j1_def)
  show ?case
  proof (cases "j1 \<ge> n")
    case True
    have "heap_upto n h"
      unfolding heap_upto_def
    proof (intro allI impI)
      fix k assume k: "0 < k \<and> k < n"
      with True child [of k] have "(k - 1) div 2 \<noteq> i" by auto
      with e1 k show "key h ((k - 1) div 2) \<le> key h k" by simp
    qed
    with True show ?thesis by (simp add: unfold)
  next
    case small: False
    then have j1n: "j1 < n" by simp
    have jn: "j < n" and jpos: "0 < j" and ji: "i < j" and pj: "(j - 1) div 2 = i"
      using j1n child [of j] by (auto simp: j_def j1_def)
    have jmin: "key h j \<le> key h k" if "k = j1 \<or> k = j1 + 1" "k < n" for k
      using that by (auto simp: j_def Less_def key_def)
    have il: "i < length h" and jl: "j < length h"
      using "1.prems"(1,2) jn by simp_all
    show ?thesis
    proof (cases "Less h j i")
      case False
      then have le: "key h i \<le> key h j" by (simp add: Less_def key_def)
      have "heap_upto n h"
        unfolding heap_upto_def
      proof (intro allI impI)
        fix k assume k: "0 < k \<and> k < n"
        show "key h ((k - 1) div 2) \<le> key h k"
        proof (cases "(k - 1) div 2 = i")
          case True
          with child [of k] k have "k = j1 \<or> k = j1 + 1" by simp
          from jmin [OF this] k le True show ?thesis by simp
        next
          case False
          with e1 k show ?thesis by simp
        qed
      qed
      with small False show ?thesis by (simp add: unfold)
    next
      case True
      then have lt: "key h j < key h i" by (simp add: Less_def key_def)
      define h' where "h' = Swap h i j"
      have len: "length h' = length h" by (simp add: h'_def)
      have k': "key h' k = (if k = j then key h i else if k = i then key h j else key h k)" for k
        unfolding h'_def using il jl by (rule key_Swap)
      have c1: "key h' ((k - 1) div 2) \<le> key h' k"
        if k: "0 < k" "k < n" "(k - 1) div 2 \<noteq> j" for k
      proof -
        define pk where "pk = (k - 1) div 2"
        have pkk: "pk < k" unfolding pk_def using k(1) by (rule parent_lt)
        have pkj: "pk \<noteq> j" using k(3) by (simp add: pk_def)
        show ?thesis
          unfolding pk_def [symmetric]
        proof (cases "pk = i")
          case True
          then have "k = j1 \<or> k = j1 + 1" using child [OF k(1)] by (simp add: pk_def)
          from jmin [OF this k(2)] have m: "key h j \<le> key h k" .
          have ki: "k \<noteq> i" using pkk True by simp
          show "key h' pk \<le> key h' k"
            using True m lt ki ji by (auto simp: k')
        next
          case False
          have e: "key h pk \<le> key h k"
            unfolding pk_def using e1 [OF k(1) k(2)] False by (simp add: pk_def)
          have kj: "k \<noteq> j" using pj False by (auto simp: pk_def)
          show "key h' pk \<le> key h' k"
          proof (cases "k = i")
            case True
            then have ipos: "0 < i" using k(1) by simp
            from e2 [OF ipos jpos jn pj] True have "key h pk \<le> key h j" by (simp add: pk_def)
            with True False pkj ji show ?thesis by (simp add: k')
          next
            case ki: False
            with e False pkj kj show ?thesis by (simp add: k')
          qed
        qed
      qed
      have c2: "key h' ((j - 1) div 2) \<le> key h' k"
        if k: "0 < k" "k < n" "(k - 1) div 2 = j" for k
      proof -
        have kgt: "j < k" using parent_lt [OF k(1)] k(3) by simp
        with ji have kn: "k \<noteq> j" "k \<noteq> i" by simp_all
        have "(k - 1) div 2 \<noteq> i" using k(3) ji by simp
        from e1 [OF k(1) k(2) this] k(3) have "key h j \<le> key h k" by simp
        with kn ji show ?thesis unfolding pj by (simp add: k')
      qed
      have "heap_except_down h' j n"
        unfolding heap_except_down_def using c1 c2 by simp
      moreover have "n \<le> length h'" using "1.prems"(1) len by simp
      moreover have "\<not> n \<le> j1" "\<not> \<not> Less h j i" using small True by simp_all
      ultimately have "heap_upto n (heap_down h' j n)"
        using "1.IH" [OF j1_eq _ j_eq] jn
        unfolding h'_def by simp
      with small True show ?thesis by (simp add: unfold h'_def)
    qed
  qed
qed

lemma heap_Pop_correct:
  assumes "is_heap h" "h \<noteq> []"
  shows "\<exists>q. heap_Pop h = Some (h ! 0, q) \<and> is_heap q \<and>
             add_mset (h ! 0) (mset q) = mset h \<and> length q = length h - 1"
proof -
  define n where "n = length h - 1"
  define h1 where "h1 = Swap h 0 n"
  define h2 where "h2 = heap_down h1 0 n"
  from assms(2) have len: "length h = Suc n" by (cases h) (simp_all add: n_def)
  have pop: "heap_Pop h = Some (h2 ! n, take n h2)"
    using assms(2) by (simp add: heap_Pop_def Let_def n_def h1_def h2_def)
  have l2: "length h2 = Suc n" by (simp add: h2_def h1_def len)
  have facts: "h2 ! n = h ! 0 \<and> mset h2 = mset h \<and> heap_upto n h2"
  proof (cases "n = 0")
    case True
    then have "h2 = h"
      unfolding h2_def h1_def by (subst heap_down.simps) (simp add: Let_def Swap_def)
    with True show ?thesis by (simp add: heap_upto_def)
  next
    case False
    then have npos: "0 < n" by simp
    have nl: "n \<le> length h1" by (simp add: h1_def len)
    have k1: "key h1 k = (if k = n then key h 0 else if k = 0 then key h n else key h k)" for k
      unfolding h1_def by (rule key_Swap) (simp_all add: len)
    have ex: "heap_except_down h1 0 n"
      unfolding heap_except_down_def
    proof (intro conjI allI impI)
      fix k assume k: "0 < k \<and> k < n \<and> (k - 1) div 2 \<noteq> 0"
      define pk where "pk = (k - 1) div 2"
      from k have "0 < k" by simp
      then have "pk < k" unfolding pk_def by (rule parent_lt)
      with k have "pk \<noteq> n" "pk \<noteq> 0" "k \<noteq> n" "k \<noteq> 0" by (simp_all add: pk_def)
      moreover from assms(1) k len have "key h pk \<le> key h k"
        by (simp add: is_heap_def pk_def)
      ultimately show "key h1 ((k - 1) div 2) \<le> key h1 k"
        unfolding pk_def [symmetric] by (simp add: k1)
    next
      fix k assume "(0::nat) < 0 \<and> 0 < k \<and> k < n \<and> (k - 1) div 2 = 0"
      then show "key h1 ((0 - 1) div 2) \<le> key h1 k" by simp
    qed
    from heap_down_props [OF nl npos]
    have "mset h2 = mset h1" and "h2 ! n = h1 ! n" by (simp_all add: h2_def)
    moreover have "mset h1 = mset h" unfolding h1_def by (rule mset_Swap) (simp_all add: len)
    moreover have "h1 ! n = h ! 0" by (simp add: h1_def Swap_def len)
    moreover have "heap_upto n h2" unfolding h2_def by (rule heap_down_heap [OF nl npos ex])
    ultimately show ?thesis by simp
  qed
  have split: "h2 = take n h2 @ [h2 ! n]"
    using l2 by (metis lessI take_Suc_conv_app_nth take_all order_refl)
  have ms: "add_mset (h ! 0) (mset (take n h2)) = mset h"
  proof -
    have a: "mset (take n h2 @ [h2 ! n]) = add_mset (h2 ! n) (mset (take n h2))" by simp
    have b: "mset h2 = mset (take n h2 @ [h2 ! n])" by (rule arg_cong [OF split])
    from facts have c: "h2 ! n = h ! 0" and d: "mset h2 = mset h" by simp_all
    from a b c d show ?thesis by metis
  qed
  have hp: "is_heap (take n h2)"
    unfolding is_heap_def
  proof (intro allI impI)
    fix k assume k: "0 < k \<and> k < length (take n h2)"
    then have kn: "k < n" by simp
    from k have "0 < k" by simp
    from parent_lt [OF this] kn have "(k - 1) div 2 < n" by simp
    with kn facts k show "key (take n h2) ((k - 1) div 2) \<le> key (take n h2) k"
      by (simp add: heap_upto_def key_def)
  qed
  from pop facts ms hp l2 len show ?thesis by simp
qed

lemma is_heap_Nil [simp]: "is_heap []"
  by (simp add: is_heap_def)

subsection \<open>The invariant of the store\<close>

text \<open>
  \<open>released\<close> is a channel closed without a value, \<open>drained err\<close> one closed after
  \<open>err\<close> was sent.  The invariant \<open>vlite_inv\<close>: the map has distinct names; in every
  partition \<open>seqMaxBatch\<close> is at most \<open>seqMax\<close>, the queue is a heap, every queued
  request asks for more than \<open>seqMaxBatch\<close>, and its channel was made, is open and empty;
  no two queued requests share a channel.  A new store satisfies it and every modelled call
  keeps it, so that no call panics or blocks.
\<close>

definition released :: chan where
  "released = \<lparr>buffer = [], closed = True\<rparr>"

lemma chan_close_make: "chan_close make_chan = Inr released"
  by (simp add: chan_close_def make_chan_def released_def)

lemma distinct_DoneCh_mset:
  assumes "mset h = add_mset x (mset q)" "distinct (map DoneCh h)"
  shows "distinct (map DoneCh q)" and "\<forall>c\<in>set q. DoneCh c \<noteq> DoneCh x"
proof -
  from assms(1) have "mset (map DoneCh h) = mset (map DoneCh (x # q))"
    by (metis mset.simps(2) mset_map)
  with assms(2) have "distinct (map DoneCh (x # q))"
    by (metis mset_eq_imp_distinct_iff)
  then have d: "distinct (map DoneCh q)" and n: "DoneCh x \<notin> DoneCh ` set q"
    by simp_all
  from d show "distinct (map DoneCh q)" .
  from n show "\<forall>c\<in>set q. DoneCh c \<noteq> DoneCh x"
    by (metis imageI)
qed

lemma applyBatch_loop_correct:
  assumes "is_heap (cwrQueue t)" "distinct (map DoneCh (cwrQueue t))"
      and "\<forall>cwr\<in>set (cwrQueue t). cs (DoneCh cwr) = make_chan"
  shows "\<exists>q cs'. applyBatch_loop t cs = Inr (t\<lparr>cwrQueue := q\<rparr>, cs') \<and> is_heap q \<and>
           mset q = filter_mset (\<lambda>c. seqMaxBatch t < ConsistencySeq c) (mset (cwrQueue t)) \<and>
           (\<forall>n. cs' n = (if \<exists>cwr\<in>set (cwrQueue t). DoneCh cwr = n \<and>
                               ConsistencySeq cwr \<le> seqMaxBatch t
                          then released else cs n))"
  using assms
proof (induction t cs rule: applyBatch_loop.induct)
  case (1 t cs)
  let ?h = "cwrQueue t"
  show ?case
  proof (cases "length ?h > 0 \<and> ConsistencySeq (?h ! 0) \<le> seqMaxBatch t")
    case False
    have all: "\<forall>c\<in>set ?h. seqMaxBatch t < ConsistencySeq c"
    proof
      fix c assume "c \<in> set ?h"
      then obtain j where j: "j < length ?h" "c = ?h ! j" by (auto simp: in_set_conv_nth)
      with is_heap_root_min [OF "1.prems"(1) j(1)] False
      show "seqMaxBatch t < ConsistencySeq c" by (auto simp: key_def)
    qed
    have "applyBatch_loop t cs = Inr (t, cs)"
      using False by (subst applyBatch_loop.simps) auto
    moreover have "mset ?h = filter_mset (\<lambda>c. seqMaxBatch t < ConsistencySeq c) (mset ?h)"
    proof -
      have "filter_mset (\<lambda>c. seqMaxBatch t < ConsistencySeq c) (mset ?h)
            = filter_mset (\<lambda>c. True) (mset ?h)"
        by (rule filter_mset_cong) (use all in auto)
      then show ?thesis by simp
    qed
    moreover have "\<forall>n. cs n = (if \<exists>cwr\<in>set ?h. DoneCh cwr = n \<and>
                               ConsistencySeq cwr \<le> seqMaxBatch t then released else cs n)"
      using all by auto
    ultimately show ?thesis
      using "1.prems"(1) by (intro exI [of _ ?h] exI [of _ cs]) simp
  next
    case True
    then have ne: "?h \<noteq> []" by auto
    from heap_Pop_correct [OF "1.prems"(1) ne] obtain q where
      pop: "heap_Pop ?h = Some (?h ! 0, q)" and hq: "is_heap q"
      and ms: "add_mset (?h ! 0) (mset q) = mset ?h" by blast
    let ?x = "?h ! 0"
    have xin: "?x \<in> set ?h" using ne by simp
    with "1.prems"(3) have cx: "cs (DoneCh ?x) = make_chan" by simp
    let ?cs1 = "cs(DoneCh ?x := released)"
    from distinct_DoneCh_mset [OF ms [symmetric] "1.prems"(2)]
    have dq: "distinct (map DoneCh q)" and nx: "\<forall>c\<in>set q. DoneCh c \<noteq> DoneCh ?x" by simp_all
    have "set_mset (mset ?h) = set_mset (add_mset ?x (mset q))"
      by (simp only: ms)
    then have seth: "set ?h = insert ?x (set q)" by simp
    then have sub: "set q \<subseteq> set ?h" by auto
    have pre3: "\<forall>cwr\<in>set (cwrQueue (t\<lparr>cwrQueue := q\<rparr>)). ?cs1 (DoneCh cwr) = make_chan"
      using nx sub "1.prems"(3) by auto
    have cc: "chan_close (cs (DoneCh ?x)) = Inr released"
      using cx by (simp add: chan_close_make)
    have hq2: "is_heap (cwrQueue (t\<lparr>cwrQueue := q\<rparr>))" using hq by simp
    have dq2: "distinct (map DoneCh (cwrQueue (t\<lparr>cwrQueue := q\<rparr>)))" using dq by simp
    let ?t1 = "t\<lparr>cwrQueue := q\<rparr>"
    from "1.IH" [OF True pop refl cc hq2 dq2 pre3]
    obtain q' cs' where
      rec0: "applyBatch_loop ?t1 ?cs1 = Inr (?t1\<lparr>cwrQueue := q'\<rparr>, cs')"
      and hq': "is_heap q'"
      and ms0: "mset q' = filter_mset (\<lambda>c. seqMaxBatch ?t1 < ConsistencySeq c) (mset (cwrQueue ?t1))"
      and cs0: "\<forall>n. cs' n = (if \<exists>cwr\<in>set (cwrQueue ?t1). DoneCh cwr = n \<and>
                               ConsistencySeq cwr \<le> seqMaxBatch ?t1 then released else ?cs1 n)"
      by blast
    from rec0 have
      rec: "applyBatch_loop (t\<lparr>cwrQueue := q\<rparr>) ?cs1 = Inr (t\<lparr>cwrQueue := q'\<rparr>, cs')"
      by simp
    from ms0 have
      ms': "mset q' = filter_mset (\<lambda>c. seqMaxBatch t < ConsistencySeq c) (mset q)"
      by simp
    have cs': "\<And>n. cs' n = (if \<exists>cwr\<in>set q. DoneCh cwr = n \<and>
                               ConsistencySeq cwr \<le> seqMaxBatch t then released else ?cs1 n)"
      using cs0 [rule_format] by simp
    have step: "applyBatch_loop t cs = Inr (t\<lparr>cwrQueue := q'\<rparr>, cs')"
      using True pop cx rec by (subst applyBatch_loop.simps) (simp add: chan_close_make)
    have xle: "ConsistencySeq ?x \<le> seqMaxBatch t" using True by simp
    have msf: "mset q' = filter_mset (\<lambda>c. seqMaxBatch t < ConsistencySeq c) (mset ?h)"
      using ms' xle by (simp add: ms [symmetric])
    have csf: "\<forall>n. cs' n = (if \<exists>cwr\<in>set ?h. DoneCh cwr = n \<and>
                               ConsistencySeq cwr \<le> seqMaxBatch t then released else cs n)"
      using cs' xle by (auto simp: seth)
    from step hq' msf csf show ?thesis by blast
  qed
qed

definition queue_ok :: "(nat \<Rightarrow> chan) \<Rightarrow> VLitePartition \<Rightarrow> bool" where
  "queue_ok cs p \<longleftrightarrow>
     is_heap (cwrQueue p) \<and> distinct (map DoneCh (cwrQueue p)) \<and>
     (\<forall>c\<in>set (cwrQueue p). cs (DoneCh c) = make_chan)"

definition kept :: "VLitePartition \<Rightarrow> (nat \<Rightarrow> chan) \<Rightarrow> VLitePartition \<Rightarrow> (nat \<Rightarrow> chan) \<Rightarrow> bool" where
  "kept p cs p' cs' \<longleftrightarrow>
     seqMaxBatch p' = seqMaxBatch p \<and> cwrQueue p' = cwrQueue p \<and> cs' = cs"

definition committed ::
  "VLitePartition \<Rightarrow> (nat \<Rightarrow> chan) \<Rightarrow> VLitePartition \<Rightarrow> (nat \<Rightarrow> chan) \<Rightarrow> bool" where
  "committed p cs p' cs' \<longleftrightarrow>
     seqMaxBatch p' = seqMax p' \<and> is_heap (cwrQueue p') \<and>
     mset (cwrQueue p') = filter_mset (\<lambda>c. seqMax p' < ConsistencySeq c) (mset (cwrQueue p)) \<and>
     (\<forall>n. cs' n = (if \<exists>c\<in>set (cwrQueue p). DoneCh c = n \<and> ConsistencySeq c \<le> seqMax p'
                    then released else cs n))"

definition dest_effect ::
  "VLitePartition \<Rightarrow> (nat \<Rightarrow> chan) \<Rightarrow> VLitePartition \<Rightarrow> (nat \<Rightarrow> chan) \<Rightarrow> bool" where
  "dest_effect p cs p' cs' \<longleftrightarrow>
     seqMax p \<le> seqMax p' \<and> partition p' = partition p \<and>
     (kept p cs p' cs' \<or> committed p cs p' cs')"

lemma applyBatchUnlocked_effect:
  assumes "queue_ok cs p"
  shows "\<exists>err p' cs'. applyBatchUnlocked vfile flush p cs = Inr (err, p', cs') \<and>
           seqMax p' = seqMax p \<and> partition p' = partition p \<and> lastUUID p' = lastUUID p \<and>
           seqSnapEnd p' = seqSnapEnd p \<and>
           (if vfile \<and> flush \<noteq> None then err = flush \<and> p' = p \<and> cs' = cs
            else err = None \<and> committed p cs p' cs')"
proof (cases "vfile \<and> flush \<noteq> None")
  case True
  then show ?thesis by (simp add: applyBatchUnlocked_def)
next
  case False
  let ?p1 = "p\<lparr>seqMaxBatch := seqMax p\<rparr>"
  from assms have "is_heap (cwrQueue ?p1)" "distinct (map DoneCh (cwrQueue ?p1))"
    "\<forall>cwr\<in>set (cwrQueue ?p1). cs (DoneCh cwr) = make_chan"
    by (simp_all add: queue_ok_def)
  from applyBatch_loop_correct [OF this] obtain q cs' where
    run: "applyBatch_loop ?p1 cs = Inr (?p1\<lparr>cwrQueue := q\<rparr>, cs')" and hq: "is_heap q"
    and ms: "mset q = filter_mset (\<lambda>c. seqMaxBatch ?p1 < ConsistencySeq c) (mset (cwrQueue ?p1))"
    and cs': "\<forall>n. cs' n = (if \<exists>cwr\<in>set (cwrQueue ?p1). DoneCh cwr = n \<and>
                               ConsistencySeq cwr \<le> seqMaxBatch ?p1 then released else cs n)"
    by blast
  have "applyBatchUnlocked vfile flush p cs = Inr (None, ?p1\<lparr>cwrQueue := q\<rparr>, cs')"
    using False run by (auto simp: applyBatchUnlocked_def)
  moreover have "committed p cs (?p1\<lparr>cwrQueue := q\<rparr>) cs'"
    unfolding committed_def using hq ms cs' by simp
  ultimately show ?thesis using False by auto
qed

lemma updateSeqUnlocked_effect:
  assumes "queue_ok cs p"
  shows "\<exists>err p' cs'. updateSeqUnlocked vfile flush seq p cs = Inr (err, p', cs') \<and>
           seqMax p' = max (seqMax p) seq \<and> partition p' = partition p \<and>
           lastUUID p' = lastUUID p \<and> seqSnapEnd p' = seqSnapEnd p \<and>
           (if seq < seqSnapEnd p \<or> (vfile \<and> flush \<noteq> None) then kept p cs p' cs'
            else err = None \<and> committed p cs p' cs')"
proof -
  let ?p1 = "if seqMax p < seq then p\<lparr>seqMax := seq\<rparr> else p"
  have q1: "queue_ok cs ?p1" using assms by (simp add: queue_ok_def)
  have m1: "seqMax ?p1 = max (seqMax p) seq" by (auto simp: max_def dest: less_imp_le)
  show ?thesis
  proof (cases "seq < seqSnapEnd p")
    case True
    then show ?thesis
      by (auto simp: updateSeqUnlocked_def Let_def kept_def max_def dest: less_imp_le)
  next
    case False
    from applyBatchUnlocked_effect [OF q1, of vfile flush] obtain err p' cs' where
      r: "applyBatchUnlocked vfile flush ?p1 cs = Inr (err, p', cs')"
      and f: "seqMax p' = seqMax ?p1" "partition p' = partition ?p1" "lastUUID p' = lastUUID ?p1"
         "seqSnapEnd p' = seqSnapEnd ?p1"
      and e: "if vfile \<and> flush \<noteq> None then err = flush \<and> p' = ?p1 \<and> cs' = cs
              else err = None \<and> committed ?p1 cs p' cs'"
      by blast
    have u: "updateSeqUnlocked vfile flush seq p cs = Inr (err, p', cs')"
      using False r by (simp add: updateSeqUnlocked_def Let_def)
    have c: "committed ?p1 cs p' cs' \<Longrightarrow> committed p cs p' cs'"
      by (simp add: committed_def split: if_splits)
    show ?thesis
      using u f e c False by (auto simp: kept_def max_def split: if_splits)
  qed
qed

lemma dest_step_effect:
  assumes "queue_ok cs p" "seqMaxBatch p \<le> seqMax p"
  shows "\<exists>err p' cs'. dest_step vfile flush call p cs = Inr (err, p', cs') \<and>
           dest_effect p cs p' cs'"
proof (cases call)
  case (CallDataUpdate early seq)
  show ?thesis
  proof (cases early)
    case None
    from updateSeqUnlocked_effect [OF assms(1), of vfile flush seq]
    show ?thesis using CallDataUpdate None
      by (auto simp: DataUpdate_def dest_effect_def split: if_splits)
  next
    case (Some r)
    then show ?thesis using CallDataUpdate
      by (simp add: DataUpdate_def dest_effect_def kept_def)
  qed
next
  case (CallDataDelete seq)
  from updateSeqUnlocked_effect [OF assms(1), of vfile flush seq]
  show ?thesis using CallDataDelete
    by (auto simp: DataDelete_def dest_effect_def split: if_splits)
next
  case (CallSnapshotStart snapStart snapEnd)
  from applyBatchUnlocked_effect [OF assms(1), of vfile flush] obtain err p' cs' where
    r: "applyBatchUnlocked vfile flush p cs = Inr (err, p', cs')"
    and f: "seqMax p' = seqMax p" "partition p' = partition p"
    and e: "if vfile \<and> flush \<noteq> None then err = flush \<and> p' = p \<and> cs' = cs
            else err = None \<and> committed p cs p' cs'"
    by blast
  show ?thesis
  proof (cases err)
    case None
    then have "dest_step vfile flush call p cs = Inr (None, p'\<lparr>seqSnapEnd := snapEnd\<rparr>, cs')"
      using r CallSnapshotStart by (simp add: SnapshotStart_def)
    moreover have "dest_effect p cs (p'\<lparr>seqSnapEnd := snapEnd\<rparr>) cs'"
      using e f None by (auto simp: dest_effect_def kept_def committed_def split: if_splits)
    ultimately show ?thesis by blast
  next
    case (Some x)
    then have "dest_step vfile flush call p cs = Inr (Some x, p', cs')"
      using r CallSnapshotStart by (simp add: SnapshotStart_def)
    moreover have "dest_effect p cs p' cs'"
      using e f Some by (auto simp: dest_effect_def kept_def split: if_splits)
    ultimately show ?thesis by blast
  qed
next
  case (CallOpaqueGet opaque seqBuf)
  then show ?thesis
    by (auto simp: OpaqueGet_def Let_def dest_effect_def kept_def
             split: sum.splits seq_read.splits prod.splits if_splits)
next
  case (CallOpaqueSet uuid set_result)
  then show ?thesis
    by (simp add: OpaqueSet_def dest_effect_def kept_def)
qed

definition pwf :: "(nat \<Rightarrow> chan) \<Rightarrow> nat \<Rightarrow> VLitePartition \<Rightarrow> bool" where
  "pwf cs nx p \<longleftrightarrow>
     seqMaxBatch p \<le> seqMax p \<and> is_heap (cwrQueue p) \<and> distinct (map DoneCh (cwrQueue p)) \<and>
     (\<forall>c\<in>set (cwrQueue p).
        seqMaxBatch p < ConsistencySeq c \<and> DoneCh c < nx \<and> cs (DoneCh c) = make_chan)"

definition vinv :: "(string \<times> VLitePartition) list \<Rightarrow> (nat \<Rightarrow> chan) \<Rightarrow> nat \<Rightarrow> bool" where
  "vinv ps cs nx \<longleftrightarrow>
     distinct (map fst ps) \<and>
     (\<forall>n p. map_of ps n = Some p \<longrightarrow> pwf cs nx p) \<and>
     (\<forall>n1 p1 n2 p2. map_of ps n1 = Some p1 \<longrightarrow> map_of ps n2 = Some p2 \<longrightarrow>
        (\<forall>c1\<in>set (cwrQueue p1). \<forall>c2\<in>set (cwrQueue p2). DoneCh c1 = DoneCh c2 \<longrightarrow> n1 = n2))"

definition vlite_inv :: "VLite \<Rightarrow> bool" where
  "vlite_inv t \<longleftrightarrow> vinv (partitions t) (chans t) (next_chan t)"

lemma pwf_queue_ok: "pwf cs nx p \<Longrightarrow> queue_ok cs p"
  by (simp add: pwf_def queue_ok_def)

lemma filtered_queue:
  assumes "mset q' = filter_mset P (mset q)" "distinct (map DoneCh q)"
  shows "set q' = {c \<in> set q. P c}" and "distinct (map DoneCh q')"
proof -
  from assms(1) have "set_mset (mset q') = set_mset (filter_mset P (mset q))" by simp
  then show "set q' = {c \<in> set q. P c}" by simp
  from assms(1) have "mset (map DoneCh q') = mset (map DoneCh (filter P q))" by simp
  moreover have "distinct (map DoneCh (filter P q))"
    using assms(2) by (rule distinct_map_filter)
  ultimately show "distinct (map DoneCh q')" by (metis mset_eq_imp_distinct_iff)
qed

lemma DoneCh_unique:
  "distinct (map DoneCh q) \<Longrightarrow> c \<in> set q \<Longrightarrow> c2 \<in> set q \<Longrightarrow> DoneCh c2 = DoneCh c \<Longrightarrow> c2 = c"
  by (meson distinct_map inj_onD)

lemma dest_effect_pwf:
  assumes e: "dest_effect p cs p' cs'" and w: "pwf cs nx p"
  shows "pwf cs' nx p'" and "set (cwrQueue p') \<subseteq> set (cwrQueue p)"
    and "\<forall>n. n \<notin> DoneCh ` set (cwrQueue p) \<longrightarrow> cs' n = cs n"
    and "seqMaxBatch p \<le> seqMaxBatch p'" and "seqMax p \<le> seqMax p'"
    and "seqMaxBatch p' = seqMaxBatch p \<or> seqMaxBatch p' = seqMax p'"
proof -
  from e have mx: "seqMax p \<le> seqMax p'" by (simp add: dest_effect_def)
  from e consider (k) "kept p cs p' cs'" | (c) "committed p cs p' cs'"
    by (auto simp: dest_effect_def)
  then have "pwf cs' nx p' \<and> set (cwrQueue p') \<subseteq> set (cwrQueue p) \<and>
             (\<forall>n. n \<notin> DoneCh ` set (cwrQueue p) \<longrightarrow> cs' n = cs n) \<and>
             seqMaxBatch p \<le> seqMaxBatch p' \<and>
             (seqMaxBatch p' = seqMaxBatch p \<or> seqMaxBatch p' = seqMax p')"
  proof cases
    case k
    then show ?thesis using w mx by (auto simp: kept_def pwf_def)
  next
    case c
    let ?P = "\<lambda>c. seqMax p' < ConsistencySeq c"
    from c have sb: "seqMaxBatch p' = seqMax p'" and hp: "is_heap (cwrQueue p')"
      and ms: "mset (cwrQueue p') = filter_mset ?P (mset (cwrQueue p))"
      and cs': "\<And>n. cs' n = (if \<exists>c\<in>set (cwrQueue p). DoneCh c = n \<and>
                                  ConsistencySeq c \<le> seqMax p' then released else cs n)"
      by (simp_all add: committed_def)
    from w have d: "distinct (map DoneCh (cwrQueue p))" by (simp add: pwf_def)
    note fq = filtered_queue [OF ms d]
    have ch: "cs' (DoneCh x) = make_chan" if x: "x \<in> set (cwrQueue p')" for x
    proof -
      from x fq(1) have xin: "x \<in> set (cwrQueue p)" and xs: "seqMax p' < ConsistencySeq x"
        by auto
      have "\<not> (\<exists>c\<in>set (cwrQueue p). DoneCh c = DoneCh x \<and> ConsistencySeq c \<le> seqMax p')"
      proof
        assume "\<exists>c\<in>set (cwrQueue p). DoneCh c = DoneCh x \<and> ConsistencySeq c \<le> seqMax p'"
        then obtain c2 where c2: "c2 \<in> set (cwrQueue p)" "DoneCh c2 = DoneCh x"
          "ConsistencySeq c2 \<le> seqMax p'" by blast
        from DoneCh_unique [OF d xin c2(1) c2(2)] have "c2 = x" .
        with c2(3) xs show False by simp
      qed
      then have "cs' (DoneCh x) = cs (DoneCh x)" using cs' [of "DoneCh x"] by auto
      with w xin show ?thesis by (simp add: pwf_def)
    qed
    have "pwf cs' nx p'"
      unfolding pwf_def using sb hp fq(2) fq(1) ch w by (auto simp: pwf_def)
    moreover have "set (cwrQueue p') \<subseteq> set (cwrQueue p)" using fq(1) by auto
    moreover have "\<forall>n. n \<notin> DoneCh ` set (cwrQueue p) \<longrightarrow> cs' n = cs n"
      by (auto simp: cs')
    moreover have "seqMaxBatch p \<le> seqMaxBatch p'"
    proof -
      from w have "seqMaxBatch p \<le> seqMax p" by (simp add: pwf_def)
      then have "seqMaxBatch p \<le> seqMax p'" using mx by (rule order_trans)
      then show ?thesis by (simp add: sb)
    qed
    ultimately show ?thesis using sb by simp
  qed
  with mx show "pwf cs' nx p'" and "set (cwrQueue p') \<subseteq> set (cwrQueue p)"
    and "\<forall>n. n \<notin> DoneCh ` set (cwrQueue p) \<longrightarrow> cs' n = cs n"
    and "seqMaxBatch p \<le> seqMaxBatch p'" and "seqMax p \<le> seqMax p'"
    and "seqMaxBatch p' = seqMaxBatch p \<or> seqMaxBatch p' = seqMax p'"
    by simp_all
qed

lemma pwf_other:
  assumes "pwf cs nx p2" "\<forall>c\<in>set (cwrQueue p2). cs' (DoneCh c) = cs (DoneCh c)" "nx \<le> nx'"
  shows "pwf cs' nx' p2"
  using assms by (auto simp: pwf_def)

lemma vinv_update:
  assumes inv: "vinv ps cs nx" and look: "map_of ps name = Some p"
    and w': "pwf cs' nx p'" and sub: "set (cwrQueue p') \<subseteq> set (cwrQueue p)"
    and same: "\<forall>n. n \<notin> DoneCh ` set (cwrQueue p) \<longrightarrow> cs' n = cs n"
  shows "vinv (AList.update name p' ps) cs' nx"
proof -
  have other: "pwf cs' nx p2" if l2: "map_of ps n2 = Some p2" "n2 \<noteq> name" for n2 p2
  proof (rule pwf_other)
    from inv l2 show "pwf cs nx p2" by (simp add: vinv_def)
    show "\<forall>c\<in>set (cwrQueue p2). cs' (DoneCh c) = cs (DoneCh c)"
    proof
      fix c assume c: "c \<in> set (cwrQueue p2)"
      have "DoneCh c \<notin> DoneCh ` set (cwrQueue p)"
      proof
        assume "DoneCh c \<in> DoneCh ` set (cwrQueue p)"
        then obtain c1 where "c1 \<in> set (cwrQueue p)" "DoneCh c1 = DoneCh c" by auto
        with inv look l2(1) c have "name = n2" unfolding vinv_def by blast
        with l2(2) show False by simp
      qed
      with same show "cs' (DoneCh c) = cs (DoneCh c)" by simp
    qed
    show "nx \<le> nx" by simp
  qed
  have cross: "n1 = n2"
    if "map_of (AList.update name p' ps) n1 = Some p1" "map_of (AList.update name p' ps) n2 = Some p2"
       "c1 \<in> set (cwrQueue p1)" "c2 \<in> set (cwrQueue p2)" "DoneCh c1 = DoneCh c2"
    for n1 n2 p1 p2 c1 c2
  proof -
    from that(1) sub look obtain q1 where
      q1: "map_of ps n1 = Some q1" "set (cwrQueue p1) \<subseteq> set (cwrQueue q1)"
      by (cases "n1 = name") (auto simp: update_conv')
    from that(2) sub look obtain q2 where
      q2: "map_of ps n2 = Some q2" "set (cwrQueue p2) \<subseteq> set (cwrQueue q2)"
      by (cases "n2 = name") (auto simp: update_conv')
    from that(3,4) q1(2) q2(2) have "c1 \<in> set (cwrQueue q1)" "c2 \<in> set (cwrQueue q2)" by auto
    with inv q1(1) q2(1) that(5) show ?thesis unfolding vinv_def by blast
  qed
  have "distinct (map fst (AList.update name p' ps))"
    using inv by (simp add: vinv_def distinct_update)
  moreover have "\<forall>n p2. map_of (AList.update name p' ps) n = Some p2 \<longrightarrow> pwf cs' nx p2"
    using w' other by (auto simp: update_conv' split: if_splits)
  ultimately show ?thesis
    unfolding vinv_def using cross by blast
qed

lemma vinv_new:
  assumes inv: "vinv ps cs nx" and look: "map_of ps name = None"
    and e: "cwrQueue bdp = []" "seqMaxBatch bdp \<le> seqMax bdp"
  shows "vinv (AList.update name bdp ps) cs nx"
proof -
  have w: "pwf cs nx bdp" using e by (simp add: pwf_def)
  have "distinct (map fst (AList.update name bdp ps))"
    using inv by (simp add: vinv_def distinct_update)
  moreover have "\<forall>n p2. map_of (AList.update name bdp ps) n = Some p2 \<longrightarrow> pwf cs nx p2"
    using w inv by (auto simp: update_conv' vinv_def split: if_splits)
  moreover have "n1 = n2"
    if "map_of (AList.update name bdp ps) n1 = Some p1" "map_of (AList.update name bdp ps) n2 = Some p2"
       "c1 \<in> set (cwrQueue p1)" "c2 \<in> set (cwrQueue p2)" "DoneCh c1 = DoneCh c2"
    for n1 n2 p1 p2 c1 c2
  proof -
    from that(1,3) e(1) have a: "map_of ps n1 = Some p1"
      by (cases "n1 = name") (auto simp: update_conv')
    from that(2,4) e(1) have b: "map_of ps n2 = Some p2"
      by (cases "n2 = name") (auto simp: update_conv')
    from inv a b that(3,4,5) show ?thesis unfolding vinv_def by blast
  qed
  ultimately show ?thesis unfolding vinv_def by blast
qed

lemma vinv_chan:
  assumes inv: "vinv ps cs nx"
  shows "vinv ps (cs(nx := c)) (Suc nx)"
proof -
  have "pwf (cs(nx := c)) (Suc nx) p" if "map_of ps n = Some p" for n p
  proof (rule pwf_other)
    from inv that show w: "pwf cs nx p" by (simp add: vinv_def)
    then show "\<forall>x\<in>set (cwrQueue p). (cs(nx := c)) (DoneCh x) = cs (DoneCh x)"
      by (auto simp: pwf_def)
    show "nx \<le> Suc nx" by simp
  qed
  with inv show ?thesis unfolding vinv_def by blast
qed

lemma distinct_DoneCh_add:
  assumes "mset q' = add_mset x (mset q)" "distinct (map DoneCh q)" "DoneCh x \<notin> DoneCh ` set q"
  shows "distinct (map DoneCh q')" and "set q' = insert x (set q)"
proof -
  from assms(1) have "mset (map DoneCh q') = mset (map DoneCh (x # q))" by simp
  moreover have "distinct (map DoneCh (x # q))" using assms(2,3) by simp
  ultimately show "distinct (map DoneCh q')" by (metis mset_eq_imp_distinct_iff)
  from assms(1) have "set_mset (mset q') = set_mset (add_mset x (mset q))" by simp
  then show "set q' = insert x (set q)" by simp
qed

lemma update_push_member:
  assumes m: "map_of (AList.update name (p\<lparr>cwrQueue := q'\<rparr>) ps) n = Some p1"
    and c: "c \<in> set (cwrQueue p1)" and q': "set q' = insert x (set (cwrQueue p))"
    and look: "map_of ps name = Some p"
  shows "(n = name \<and> c = x) \<or> (\<exists>q1. map_of ps n = Some q1 \<and> c \<in> set (cwrQueue q1))"
proof (cases "n = name")
  case True
  with m have "p1 = p\<lparr>cwrQueue := q'\<rparr>" by (simp add: update_conv')
  with c have "c \<in> set q'" by simp
  then have "c = x \<or> c \<in> set (cwrQueue p)" unfolding q' by simp
  with True look show ?thesis by blast
next
  case False
  with m have "map_of ps n = Some p1" by (simp add: update_conv')
  with c show ?thesis by blast
qed

lemma vinv_push:
  assumes inv: "vinv ps cs nx" and look: "map_of ps name = Some p"
    and lt: "seqMaxBatch p < ConsistencySeq cwr" and ch: "DoneCh cwr = nx"
  shows "vinv (AList.update name (p\<lparr>cwrQueue := heap_Push (cwrQueue p) cwr\<rparr>) ps)
           (cs(nx := make_chan)) (Suc nx)"
proof -
  let ?q' = "heap_Push (cwrQueue p) cwr"
  let ?p' = "p\<lparr>cwrQueue := ?q'\<rparr>"
  let ?cs = "cs(nx := make_chan)"
  from inv look have w: "pwf cs nx p" by (simp add: vinv_def)
  then have below: "\<forall>c\<in>set (cwrQueue p). DoneCh c < nx" by (simp add: pwf_def)
  then have fresh: "DoneCh cwr \<notin> DoneCh ` set (cwrQueue p)" using ch by auto
  from w have d: "distinct (map DoneCh (cwrQueue p))" by (simp add: pwf_def)
  note a = distinct_DoneCh_add [OF mset_heap_Push d fresh]
  from w have hp: "is_heap ?q'" by (simp add: pwf_def heap_Push_is_heap)
  from vinv_chan [OF inv] have inv1: "vinv ps ?cs (Suc nx)" .
  have w': "pwf ?cs (Suc nx) ?p'"
    unfolding pwf_def using w hp a lt ch below by (auto simp: pwf_def)
  have others: "DoneCh c \<noteq> nx" if "map_of ps n = Some p2" "c \<in> set (cwrQueue p2)" for n p2 c
    using inv that by (fastforce simp: vinv_def pwf_def)
  have "distinct (map fst (AList.update name ?p' ps))"
    using inv by (simp add: vinv_def distinct_update)
  moreover have "\<forall>n p2. map_of (AList.update name ?p' ps) n = Some p2 \<longrightarrow> pwf ?cs (Suc nx) p2"
    using w' inv1 by (auto simp: update_conv' vinv_def split: if_splits)
  moreover have "n1 = n2"
    if h: "map_of (AList.update name ?p' ps) n1 = Some p1"
       "map_of (AList.update name ?p' ps) n2 = Some p2"
       "c1 \<in> set (cwrQueue p1)" "c2 \<in> set (cwrQueue p2)" "DoneCh c1 = DoneCh c2"
    for n1 n2 p1 p2 c1 c2
  proof -
    have x1: "(n1 = name \<and> c1 = cwr) \<or>
        (\<exists>q1. map_of ps n1 = Some q1 \<and> c1 \<in> set (cwrQueue q1))"
      by (rule update_push_member [OF h(1) h(3) a(2) look])
    have x2: "(n2 = name \<and> c2 = cwr) \<or>
        (\<exists>q2. map_of ps n2 = Some q2 \<and> c2 \<in> set (cwrQueue q2))"
      by (rule update_push_member [OF h(2) h(4) a(2) look])
    from x1 x2 show ?thesis
    proof (elim disjE conjE exE)
      assume "n1 = name" "n2 = name" then show ?thesis by simp
    next
      fix q2 assume "n1 = name" "c1 = cwr" "map_of ps n2 = Some q2" "c2 \<in> set (cwrQueue q2)"
      with others [of n2 q2 c2] h(5) ch show ?thesis by simp
    next
      fix q1 assume "n2 = name" "c2 = cwr" "map_of ps n1 = Some q1" "c1 \<in> set (cwrQueue q1)"
      with others [of n1 q1 c1] h(5) ch show ?thesis by simp
    next
      fix q1 q2 assume "map_of ps n1 = Some q1" "c1 \<in> set (cwrQueue q1)"
        "map_of ps n2 = Some q2" "c2 \<in> set (cwrQueue q2)"
      with inv h(5) show ?thesis unfolding vinv_def by blast
    qed
  qed
  ultimately show ?thesis unfolding vinv_def by blast
qed

lemma getPartitionUnlocked_cases:
  "getPartitionUnlocked t name =
     (if \<not> store t then Inl AlreadyClosed
      else case map_of (partitions t) name of
             Some bdp \<Rightarrow> Inr (bdp, t)
           | None \<Rightarrow> Inr (zero_partition name,
                          t\<lparr>partitions := AList.update name (zero_partition name) (partitions t)\<rparr>))"
  by (simp add: getPartitionUnlocked_def Let_def split: option.splits)

lemma getPartitionUnlocked_inv:
  assumes "vlite_inv t" "getPartitionUnlocked t name = Inr (bdp, t2)"
  shows "vlite_inv t2" and "map_of (partitions t2) name = Some bdp"
    and "chans t2 = chans t" and "next_chan t2 = next_chan t" and "file' t2 = file' t"
    and "store t2 = store t" and "store t"
    and "\<forall>n. n \<noteq> name \<longrightarrow> map_of (partitions t2) n = map_of (partitions t) n"
    and "case map_of (partitions t) name of Some p \<Rightarrow> bdp = p | None \<Rightarrow> bdp = zero_partition name"
proof -
  from assms(2) have st: "store t"
    by (auto simp: getPartitionUnlocked_cases split: if_splits)
  have "vlite_inv t2 \<and> map_of (partitions t2) name = Some bdp \<and> chans t2 = chans t \<and>
        next_chan t2 = next_chan t \<and> file' t2 = file' t \<and> store t2 = store t \<and>
        (\<forall>n. n \<noteq> name \<longrightarrow> map_of (partitions t2) n = map_of (partitions t) n) \<and>
        (case map_of (partitions t) name of Some p \<Rightarrow> bdp = p | None \<Rightarrow> bdp = zero_partition name)"
  proof (cases "map_of (partitions t) name")
    case None
    with assms(2) st have e: "bdp = zero_partition name"
      "t2 = t\<lparr>partitions := AList.update name (zero_partition name) (partitions t)\<rparr>"
      by (auto simp: getPartitionUnlocked_cases)
    have "vinv (AList.update name (zero_partition name) (partitions t)) (chans t) (next_chan t)"
      using assms(1) None by (intro vinv_new) (simp_all add: vlite_inv_def zero_partition_def)
    then show ?thesis using e None by (simp add: vlite_inv_def update_conv')
  next
    case (Some p)
    with assms st show ?thesis by (simp add: getPartitionUnlocked_cases)
  qed
  with st show "vlite_inv t2" and "map_of (partitions t2) name = Some bdp"
    and "chans t2 = chans t" and "next_chan t2 = next_chan t" and "file' t2 = file' t"
    and "store t2 = store t" and "store t"
    and "\<forall>n. n \<noteq> name \<longrightarrow> map_of (partitions t2) n = map_of (partitions t) n"
    and "case map_of (partitions t) name of Some p \<Rightarrow> bdp = p | None \<Rightarrow> bdp = zero_partition name"
    by simp_all
qed

lemma Dest_call_closed: "\<not> store t \<Longrightarrow> Dest_call t name flush call = Inr (Some AlreadyClosed, t)"
  by (simp add: Dest_call_def getPartitionUnlocked_cases)

lemma Dest_call_inv:
  assumes inv: "vlite_inv t" and st: "store t"
  shows "\<exists>bdp t2 err p' cs'.
           getPartitionUnlocked t name = Inr (bdp, t2) \<and>
           Dest_call t name flush call
             = Inr (err, t2\<lparr>partitions := AList.update name p' (partitions t2), chans := cs'\<rparr>) \<and>
           dest_step (file' t) flush call bdp (chans t) = Inr (err, p', cs') \<and>
           dest_effect bdp (chans t) p' cs' \<and> pwf (chans t) (next_chan t) bdp \<and>
           vlite_inv (t2\<lparr>partitions := AList.update name p' (partitions t2), chans := cs'\<rparr>)"
proof -
  from st obtain bdp t2 where g: "getPartitionUnlocked t name = Inr (bdp, t2)"
    by (cases "map_of (partitions t) name") (auto simp: getPartitionUnlocked_cases)
  note f2 = getPartitionUnlocked_inv [OF inv g]
  from f2(1,2) have w: "pwf (chans t2) (next_chan t2) bdp" by (simp add: vlite_inv_def vinv_def)
  then have le: "seqMaxBatch bdp \<le> seqMax bdp" by (simp add: pwf_def)
  from dest_step_effect [OF pwf_queue_ok [OF w] le, of "file' t2" flush call]
  obtain err p' cs' where
    r: "dest_step (file' t2) flush call bdp (chans t2) = Inr (err, p', cs')"
    and e: "dest_effect bdp (chans t2) p' cs'" by blast
  note f = dest_effect_pwf [OF e w]
  let ?t' = "t2\<lparr>partitions := AList.update name p' (partitions t2), chans := cs'\<rparr>"
  have "Dest_call t name flush call = Inr (err, ?t')"
    using g r by (simp add: Dest_call_def)
  moreover have "vlite_inv ?t'"
    using vinv_update [OF _ f2(2) f(1) f(2) f(3)] f2(1) by (simp add: vlite_inv_def)
  ultimately show ?thesis using g r e w f2(3,4,5) by auto
qed

definition drained :: "error \<Rightarrow> chan" where
  "drained err = \<lparr>buffer = [err], closed = True\<rparr>"

definition new_cwr :: "VLite \<Rightarrow> string \<Rightarrow> u64 \<Rightarrow> ConsistencyWaitReq" where
  "new_cwr t partitionUUID consistencySeq =
     \<lparr>PartitionUUID = partitionUUID, ConsistencyLevel = ''at_plus'',
      ConsistencySeq = consistencySeq, DoneCh = next_chan t\<rparr>"

lemma ConsistencyWait_enter_no_level:
  "ConsistencyWait_enter t name uuid [] seq = Inr (Returned None, t)"
  by (simp add: ConsistencyWait_enter_def)

lemma ConsistencyWait_enter_bad_level:
  "level \<noteq> [] \<Longrightarrow> level \<noteq> ''at_plus'' \<Longrightarrow>
   ConsistencyWait_enter t name uuid level seq
     = Inr (Returned (Some (UnsupportedConsistencyLevel level)), t)"
  by (simp add: ConsistencyWait_enter_def)

lemma ConsistencyWait_enter_closed:
  "\<not> store t \<Longrightarrow>
   ConsistencyWait_enter t name uuid ''at_plus'' seq
     = Inr (Returned (Some AlreadyClosed),
            t\<lparr>chans := (chans t)(next_chan t := make_chan), next_chan := Suc (next_chan t)\<rparr>)"
  by (simp add: ConsistencyWait_enter_def getPartitionUnlocked_cases Let_def)

lemma getPartitionUnlocked_frame:
  assumes "getPartitionUnlocked t name = Inr (bdp, t2)"
  shows "getPartitionUnlocked (t\<lparr>chans := cs, next_chan := nx\<rparr>) name
         = Inr (bdp, t2\<lparr>chans := cs, next_chan := nx\<rparr>)"
  using assms
  by (cases "map_of (partitions t) name")
     (auto simp: getPartitionUnlocked_cases split: if_splits)

lemma ConsistencyWait_enter_at_plus:
  assumes g: "getPartitionUnlocked t name = Inr (bdp, t2)"
  shows "ConsistencyWait_enter t name uuid ''at_plus'' seq =
     (if uuid \<noteq> [] \<and> uuid \<noteq> lastUUID bdp then
        Inr (Waiting (new_cwr t uuid seq) bdp,
             t2\<lparr>chans := (chans t)(next_chan t := drained (MismatchedPartition (lastUUID bdp))),
                next_chan := Suc (next_chan t)\<rparr>)
      else if seqMaxBatch bdp < seq then
        Inr (Waiting (new_cwr t uuid seq)
               (bdp\<lparr>cwrQueue := heap_Push (cwrQueue bdp) (new_cwr t uuid seq)\<rparr>),
             t2\<lparr>partitions :=
                  AList.update name
                    (bdp\<lparr>cwrQueue := heap_Push (cwrQueue bdp) (new_cwr t uuid seq)\<rparr>)
                    (partitions t2),
                chans := (chans t)(next_chan t := make_chan),
                next_chan := Suc (next_chan t)\<rparr>)
      else
        Inr (Waiting (new_cwr t uuid seq) bdp,
             t2\<lparr>chans := (chans t)(next_chan t := released),
                next_chan := Suc (next_chan t)\<rparr>))"
proof -
  let ?cs = "(chans t)(next_chan t := make_chan)"
  have c2: "chans t2 = chans t" and n2: "next_chan t2 = next_chan t"
    using g by (cases "map_of (partitions t) name";
                auto simp: getPartitionUnlocked_cases split: if_splits)+
  note g1 = getPartitionUnlocked_frame [OF g, where cs = ?cs and nx = "Suc (next_chan t)"]
  have send: "chan_send make_chan e = Inr \<lparr>buffer = [e], closed = False\<rparr>" for e
    by (simp add: chan_send_def make_chan_def)
  have close1: "chan_close \<lparr>buffer = [e], closed = False\<rparr> = Inr (drained e)" for e
    by (simp add: chan_close_def drained_def)
  show ?thesis
    unfolding ConsistencyWait_enter_def
    by (simp add: Let_def g1 new_cwr_def send close1 chan_close_make not_less)
qed

lemma set_heap_Push: "set (heap_Push h x) = insert x (set h)"
proof -
  have "set_mset (mset (heap_Push h x)) = set_mset (add_mset x (mset h))"
    by (simp only: mset_heap_Push)
  then show ?thesis by simp
qed

lemma ConsistencyWait_enter_inv:
  assumes inv: "vlite_inv t"
  shows "\<exists>r t'. ConsistencyWait_enter t name uuid level seq = Inr (r, t') \<and> vlite_inv t' \<and>
           store t' = store t \<and> file' t' = file' t \<and>
           (\<forall>n. n < next_chan t \<longrightarrow> chans t' n = chans t n) \<and>
           (\<forall>n p. map_of (partitions t) n = Some p \<longrightarrow>
              (\<exists>p'. map_of (partitions t') n = Some p' \<and> seqMax p' = seqMax p \<and>
                    seqMaxBatch p' = seqMaxBatch p \<and> lastUUID p' = lastUUID p \<and>
                    set (cwrQueue p) \<subseteq> set (cwrQueue p')))"
proof -
  let ?nx = "next_chan t"
  have alloc: "vlite_inv (t\<lparr>chans := (chans t)(?nx := c), next_chan := Suc ?nx\<rparr>)" for c
    using vinv_chan [of "partitions t" "chans t" ?nx c] inv by (simp add: vlite_inv_def)
  consider (none) "level = []" | (bad) "level \<noteq> []" "level \<noteq> ''at_plus''"
    | (closed) "level = ''at_plus''" "\<not> store t" | (wait) "level = ''at_plus''" "store t"
    by blast
  then show ?thesis
  proof cases
    case none
    then show ?thesis using inv by (simp add: ConsistencyWait_enter_no_level)
  next
    case bad
    then show ?thesis using inv by (simp add: ConsistencyWait_enter_bad_level)
  next
    case closed
    then show ?thesis using alloc by (simp add: ConsistencyWait_enter_closed)
  next
    case wait
    from wait(2) obtain bdp t2 where g: "getPartitionUnlocked t name = Inr (bdp, t2)"
      by (cases "map_of (partitions t) name") (auto simp: getPartitionUnlocked_cases)
    note f2 = getPartitionUnlocked_inv [OF inv g]
    from f2(1,3,4) have v2: "vinv (partitions t2) (chans t) ?nx" by (simp add: vlite_inv_def)
    have keep: "\<exists>p'. map_of (partitions t2) n = Some p' \<and> seqMax p' = seqMax p \<and>
                  seqMaxBatch p' = seqMaxBatch p \<and> lastUUID p' = lastUUID p \<and>
                  set (cwrQueue p) \<subseteq> set (cwrQueue p')"
      if "map_of (partitions t) n = Some p" for n p
      using that f2(2,8,9) by (cases "n = name") auto
    note e = ConsistencyWait_enter_at_plus [OF g, where uuid = uuid and seq = seq]
    consider (mis) "uuid \<noteq> [] \<and> uuid \<noteq> lastUUID bdp"
      | (push) "\<not> (uuid \<noteq> [] \<and> uuid \<noteq> lastUUID bdp)" "seqMaxBatch bdp < seq"
      | (already) "\<not> (uuid \<noteq> [] \<and> uuid \<noteq> lastUUID bdp)" "\<not> seqMaxBatch bdp < seq"
      by blast
    then show ?thesis
    proof cases
      case mis
      let ?t' = "t2\<lparr>chans := (chans t)(?nx := drained (MismatchedPartition (lastUUID bdp))),
                    next_chan := Suc ?nx\<rparr>"
      have "vlite_inv ?t'" using vinv_chan [OF v2] by (simp add: vlite_inv_def)
      then show ?thesis using e mis wait(1) f2(5,6) keep by auto
    next
      case push
      let ?p' = "bdp\<lparr>cwrQueue := heap_Push (cwrQueue bdp) (new_cwr t uuid seq)\<rparr>"
      let ?t' = "t2\<lparr>partitions := AList.update name ?p' (partitions t2),
                    chans := (chans t)(?nx := make_chan), next_chan := Suc ?nx\<rparr>"
      have "vinv (AList.update name ?p' (partitions t2)) ((chans t)(?nx := make_chan)) (Suc ?nx)"
        by (rule vinv_push [OF v2 f2(2)]) (simp_all add: new_cwr_def push(2))
      then have i: "vlite_inv ?t'" by (simp add: vlite_inv_def)
      have k: "\<exists>p'. map_of (partitions ?t') n = Some p' \<and> seqMax p' = seqMax p \<and>
                  seqMaxBatch p' = seqMaxBatch p \<and> lastUUID p' = lastUUID p \<and>
                  set (cwrQueue p) \<subseteq> set (cwrQueue p')"
        if "map_of (partitions t) n = Some p" for n p
        using keep [OF that] f2(2)
        by (cases "n = name") (auto simp: update_conv' set_heap_Push)
      have "ConsistencyWait_enter t name uuid level seq
              = Inr (Waiting (new_cwr t uuid seq) ?p', ?t')"
        using e push wait(1) by simp
      moreover have "store ?t' = store t" "file' ?t' = file' t"
        "\<forall>n. n < ?nx \<longrightarrow> chans ?t' n = chans t n"
        using f2(5,6) by simp_all
      ultimately show ?thesis using i k by blast
    next
      case already
      let ?t' = "t2\<lparr>chans := (chans t)(?nx := released), next_chan := Suc ?nx\<rparr>"
      have "vlite_inv ?t'" using vinv_chan [OF v2] by (simp add: vlite_inv_def)
      then show ?thesis using e already wait(1) f2(5,6) keep by auto
    qed
  qed
qed

lemma drain_queue_correct:
  assumes "distinct (map DoneCh q)" "\<forall>c\<in>set q. cs (DoneCh c) = make_chan"
  shows "\<exists>cs'. drain_queue err q cs = Inr cs' \<and>
           (\<forall>n. cs' n = (if n \<in> DoneCh ` set q then drained err else cs n))"
  using assms
proof (induction q arbitrary: cs)
  case Nil
  then show ?case by simp
next
  case (Cons c q)
  let ?cs1 = "cs(DoneCh c := drained err)"
  from Cons.prems have d: "distinct (map DoneCh q)" and n: "DoneCh c \<notin> DoneCh ` set q"
    and c0: "cs (DoneCh c) = make_chan" and r: "\<forall>x\<in>set q. cs (DoneCh x) = make_chan"
    by simp_all
  have ne: "DoneCh x \<noteq> DoneCh c" if "x \<in> set q" for x
    using n that by (metis imageI)
  have r1: "\<forall>x\<in>set q. ?cs1 (DoneCh x) = make_chan" using r ne by simp
  from Cons.IH [OF d r1] obtain cs' where
    run: "drain_queue err q ?cs1 = Inr cs'"
    and cs': "\<forall>n. cs' n = (if n \<in> DoneCh ` set q then drained err else ?cs1 n)" by blast
  have "drain_queue err (c # q) cs = Inr cs'"
    using run c0 by (simp add: chan_send_def chan_close_def make_chan_def drained_def)
  moreover have "\<forall>n. cs' n = (if n \<in> DoneCh ` set (c # q) then drained err else cs n)"
    using cs' by auto
  ultimately show ?case by blast
qed

definition queued :: "(string \<times> VLitePartition) list \<Rightarrow> ConsistencyWaitReq list" where
  "queued ps = concat (map (\<lambda>np. cwrQueue (snd np)) ps)"

lemma drain_partitions_correct:
  assumes "distinct (map DoneCh (queued ps))" "\<forall>c\<in>set (queued ps). cs (DoneCh c) = make_chan"
  shows "\<exists>cs'. drain_partitions err ps cs = Inr cs' \<and>
           (\<forall>n. cs' n = (if n \<in> DoneCh ` set (queued ps) then drained err else cs n))"
  using assms
proof (induction ps arbitrary: cs)
  case Nil
  then show ?case by (simp add: queued_def)
next
  case (Cons np ps)
  let ?q = "cwrQueue (snd np)"
  have qd: "queued (np # ps) = ?q @ queued ps" by (simp add: queued_def)
  from Cons.prems have d1: "distinct (map DoneCh ?q)" and d2: "distinct (map DoneCh (queued ps))"
    and dj: "DoneCh ` set ?q \<inter> DoneCh ` set (queued ps) = {}"
    and a1: "\<forall>c\<in>set ?q. cs (DoneCh c) = make_chan"
    and a2: "\<forall>c\<in>set (queued ps). cs (DoneCh c) = make_chan"
    by (simp_all add: qd)
  from drain_queue_correct [OF d1 a1, of err] obtain cs1 where
    r1: "drain_queue err ?q cs = Inr cs1"
    and c1: "\<forall>n. cs1 n = (if n \<in> DoneCh ` set ?q then drained err else cs n)" by blast
  have a2': "\<forall>c\<in>set (queued ps). cs1 (DoneCh c) = make_chan"
    using a2 dj c1 by auto
  from Cons.IH [OF d2 a2'] obtain cs' where
    r2: "drain_partitions err ps cs1 = Inr cs'"
    and c2: "\<forall>n. cs' n = (if n \<in> DoneCh ` set (queued ps) then drained err else cs1 n)"
    by blast
  have "drain_partitions err (np # ps) cs = Inr cs'" using r1 r2 by simp
  moreover have "\<forall>n. cs' n = (if n \<in> DoneCh ` set (queued (np # ps)) then drained err else cs n)"
    using c1 c2 by (auto simp: qd)
  ultimately show ?case by blast
qed

lemma queued_distinct:
  assumes "distinct (map fst ps)"
    and "\<forall>np\<in>set ps. distinct (map DoneCh (cwrQueue (snd np)))"
    and "\<forall>np1\<in>set ps. \<forall>np2\<in>set ps. \<forall>c1\<in>set (cwrQueue (snd np1)).
           \<forall>c2\<in>set (cwrQueue (snd np2)). DoneCh c1 = DoneCh c2 \<longrightarrow> fst np1 = fst np2"
  shows "distinct (map DoneCh (queued ps))"
  using assms
proof (induction ps)
  case Nil
  then show ?case by (simp add: queued_def)
next
  case (Cons np ps)
  let ?q = "cwrQueue (snd np)"
  have qd: "queued (np # ps) = ?q @ queued ps" by (simp add: queued_def)
  from Cons.prems(1) have nf: "fst np \<notin> fst ` set ps" and dk: "distinct (map fst ps)" by simp_all
  have ih: "distinct (map DoneCh (queued ps))"
    by (rule Cons.IH [OF dk]) (use Cons.prems(2,3) in auto)
  have "DoneCh ` set ?q \<inter> DoneCh ` set (queued ps) = {}"
  proof (rule ccontr)
    assume "DoneCh ` set ?q \<inter> DoneCh ` set (queued ps) \<noteq> {}"
    then obtain c1 c2 np2 where c: "c1 \<in> set ?q" "np2 \<in> set ps" "c2 \<in> set (cwrQueue (snd np2))"
      "DoneCh c1 = DoneCh c2"
      by (auto simp: queued_def)
    with Cons.prems(3) have "fst np = fst np2" by (simp add: ball_Un) blast
    with c(2) nf show False by force
  qed
  with Cons.prems(2) ih show ?case by (simp add: qd)
qed

lemma vinv_queued:
  assumes "vinv ps cs nx"
  shows "distinct (map DoneCh (queued ps))" and "\<forall>c\<in>set (queued ps). cs (DoneCh c) = make_chan"
    and "set (queued ps) = {c. \<exists>n p. map_of ps n = Some p \<and> c \<in> set (cwrQueue p)}"
proof -
  from assms have dk: "distinct (map fst ps)" by (simp add: vinv_def)
  have mem: "map_of ps (fst np) = Some (snd np)" if "np \<in> set ps" for np
    using dk that by (cases np) simp
  show "distinct (map DoneCh (queued ps))"
  proof (rule queued_distinct [OF dk])
    show "\<forall>np\<in>set ps. distinct (map DoneCh (cwrQueue (snd np)))"
      using assms mem by (fastforce simp: vinv_def pwf_def)
    show "\<forall>np1\<in>set ps. \<forall>np2\<in>set ps. \<forall>c1\<in>set (cwrQueue (snd np1)).
           \<forall>c2\<in>set (cwrQueue (snd np2)). DoneCh c1 = DoneCh c2 \<longrightarrow> fst np1 = fst np2"
    proof (intro ballI impI)
      fix np1 np2 c1 c2
      assume h: "np1 \<in> set ps" "np2 \<in> set ps" "c1 \<in> set (cwrQueue (snd np1))"
        "c2 \<in> set (cwrQueue (snd np2))" "DoneCh c1 = DoneCh c2"
      from assms mem [OF h(1)] mem [OF h(2)] h(3,4,5) show "fst np1 = fst np2"
        unfolding vinv_def by blast
    qed
  qed
  show s: "set (queued ps) = {c. \<exists>n p. map_of ps n = Some p \<and> c \<in> set (cwrQueue p)}"
  proof (intro set_eqI iffI)
    fix c assume "c \<in> set (queued ps)"
    then obtain np where "np \<in> set ps" "c \<in> set (cwrQueue (snd np))"
      by (auto simp: queued_def)
    with mem show "c \<in> {c. \<exists>n p. map_of ps n = Some p \<and> c \<in> set (cwrQueue p)}" by blast
  next
    fix c assume "c \<in> {c. \<exists>n p. map_of ps n = Some p \<and> c \<in> set (cwrQueue p)}"
    then obtain n p where "map_of ps n = Some p" "c \<in> set (cwrQueue p)" by blast
    then have "(n, p) \<in> set ps" "c \<in> set (cwrQueue (snd (n, p)))"
      by (simp_all add: map_of_SomeD)
    then show "c \<in> set (queued ps)" unfolding queued_def by (simp only: set_concat set_map) blast
  qed
  show "\<forall>c\<in>set (queued ps). cs (DoneCh c) = make_chan"
    using assms unfolding s by (fastforce simp: vinv_def pwf_def)
qed

lemma vinv_Nil: "vinv [] cs nx"
  by (simp add: vinv_def)

lemma closeUnlocked_correct:
  assumes inv: "vlite_inv t" and st: "store t"
  shows "\<exists>cs'. closeUnlocked t = Inr (None, t\<lparr>partitions := [], store := False, chans := cs'\<rparr>) \<and>
           (\<forall>n. cs' n = (if \<exists>nm p c. map_of (partitions t) nm = Some p \<and>
                                c \<in> set (cwrQueue p) \<and> DoneCh c = n
                          then drained CloseUnlocked else chans t n)) \<and>
           vlite_inv (t\<lparr>partitions := [], store := False, chans := cs'\<rparr>)"
proof -
  from inv have v: "vinv (partitions t) (chans t) (next_chan t)" by (simp add: vlite_inv_def)
  note q = vinv_queued [OF v]
  from drain_partitions_correct [OF q(1) q(2), of CloseUnlocked] obtain cs' where
    r: "drain_partitions CloseUnlocked (partitions t) (chans t) = Inr cs'"
    and c: "\<forall>n. cs' n = (if n \<in> DoneCh ` set (queued (partitions t))
                          then drained CloseUnlocked else chans t n)" by blast
  have "closeUnlocked t = Inr (None, t\<lparr>partitions := [], store := False, chans := cs'\<rparr>)"
    using st r by (simp add: closeUnlocked_def)
  moreover have "\<forall>n. cs' n = (if \<exists>nm p c. map_of (partitions t) nm = Some p \<and>
                                c \<in> set (cwrQueue p) \<and> DoneCh c = n
                          then drained CloseUnlocked else chans t n)"
    using c unfolding q(3) by (auto simp: image_iff)
  moreover have "vlite_inv (t\<lparr>partitions := [], store := False, chans := cs'\<rparr>)"
    by (simp add: vlite_inv_def vinv_Nil)
  ultimately show ?thesis by blast
qed

lemma closeUnlocked_closed: "\<not> store t \<Longrightarrow> closeUnlocked t = Inr (None, t)"
  by (simp add: closeUnlocked_def)

lemma dest_effect_release:
  assumes e: "dest_effect p cs p' cs'" and w: "pwf cs nx p" and c: "c \<in> set (cwrQueue p)"
  shows "cs' (DoneCh c) = (if ConsistencySeq c \<le> seqMaxBatch p' then released else make_chan)"
    and "c \<in> set (cwrQueue p') \<longleftrightarrow> seqMaxBatch p' < ConsistencySeq c"
proof -
  from w c have lt: "seqMaxBatch p < ConsistencySeq c" and ch: "cs (DoneCh c) = make_chan"
    and d: "distinct (map DoneCh (cwrQueue p))"
    by (simp_all add: pwf_def)
  from e consider (k) "kept p cs p' cs'" | (cm) "committed p cs p' cs'"
    by (auto simp: dest_effect_def)
  then have "cs' (DoneCh c) = (if ConsistencySeq c \<le> seqMaxBatch p' then released else make_chan)
             \<and> (c \<in> set (cwrQueue p') \<longleftrightarrow> seqMaxBatch p' < ConsistencySeq c)"
  proof cases
    case k
    then have "seqMaxBatch p' = seqMaxBatch p" "cwrQueue p' = cwrQueue p" "cs' = cs"
      by (simp_all add: kept_def)
    with lt ch c show ?thesis by (simp add: not_le)
  next
    case cm
    let ?P = "\<lambda>c. seqMax p' < ConsistencySeq c"
    from cm have sb: "seqMaxBatch p' = seqMax p'"
      and ms: "mset (cwrQueue p') = filter_mset ?P (mset (cwrQueue p))"
      and cs': "\<And>n. cs' n = (if \<exists>c\<in>set (cwrQueue p). DoneCh c = n \<and>
                                  ConsistencySeq c \<le> seqMax p' then released else cs n)"
      by (simp_all add: committed_def)
    note fq = filtered_queue [OF ms d]
    have "(\<exists>c2\<in>set (cwrQueue p). DoneCh c2 = DoneCh c \<and> ConsistencySeq c2 \<le> seqMax p')
          \<longleftrightarrow> ConsistencySeq c \<le> seqMax p'"
    proof
      assume "\<exists>c2\<in>set (cwrQueue p). DoneCh c2 = DoneCh c \<and> ConsistencySeq c2 \<le> seqMax p'"
      then obtain c2 where c2: "c2 \<in> set (cwrQueue p)" "DoneCh c2 = DoneCh c"
        "ConsistencySeq c2 \<le> seqMax p'" by blast
      from DoneCh_unique [OF d c c2(1) c2(2)] c2(3) show "ConsistencySeq c \<le> seqMax p'"
        by simp
    next
      assume "ConsistencySeq c \<le> seqMax p'"
      with c show "\<exists>c2\<in>set (cwrQueue p). DoneCh c2 = DoneCh c \<and> ConsistencySeq c2 \<le> seqMax p'"
        by blast
    qed
    then have "cs' (DoneCh c) = (if ConsistencySeq c \<le> seqMax p' then released else make_chan)"
      using cs' [of "DoneCh c"] ch by simp
    moreover have "c \<in> set (cwrQueue p') \<longleftrightarrow> seqMax p' < ConsistencySeq c"
      using fq(1) c by simp
    ultimately show ?thesis by (simp add: sb)
  qed
  then show "cs' (DoneCh c) = (if ConsistencySeq c \<le> seqMaxBatch p' then released else make_chan)"
    and "c \<in> set (cwrQueue p') \<longleftrightarrow> seqMaxBatch p' < ConsistencySeq c"
    by simp_all
qed

definition step_effect :: "VLitePartition \<Rightarrow> VLite \<Rightarrow> VLitePartition \<Rightarrow> bool" where
  "step_effect p t' p' \<longleftrightarrow>
     seqMaxBatch p \<le> seqMaxBatch p' \<and> seqMax p \<le> seqMax p' \<and>
     (seqMaxBatch p' = seqMaxBatch p \<or> seqMaxBatch p' = seqMax p') \<and>
     is_heap (cwrQueue p') \<and>
     (\<forall>c\<in>set (cwrQueue p).
        chans t' (DoneCh c)
          = (if ConsistencySeq c \<le> seqMaxBatch p' then released else make_chan) \<and>
        (c \<in> set (cwrQueue p') \<longleftrightarrow> seqMaxBatch p' < ConsistencySeq c))"

lemma vlite_step_effect:
  assumes inv: "vlite_inv t" and st: "store t" and look: "map_of (partitions t) name = Some p"
  shows "\<exists>t' p'. vlite_step t call = Inr t' \<and> vlite_inv t' \<and> store t' \<and>
           map_of (partitions t') name = Some p' \<and> step_effect p t' p'"
proof -
  from inv look have w: "pwf (chans t) (next_chan t) p" by (simp add: vlite_inv_def vinv_def)
  show ?thesis
  proof (cases call)
    case (CallDest n flush dc)
    from Dest_call_inv [OF inv st, of n flush dc] obtain bdp t2 err q cs' where
      g: "getPartitionUnlocked t n = Inr (bdp, t2)"
      and r: "Dest_call t n flush dc
                = Inr (err, t2\<lparr>partitions := AList.update n q (partitions t2), chans := cs'\<rparr>)"
      and e: "dest_effect bdp (chans t) q cs'"
      and wb: "pwf (chans t) (next_chan t) bdp"
      and i: "vlite_inv (t2\<lparr>partitions := AList.update n q (partitions t2), chans := cs'\<rparr>)"
      by blast
    let ?t' = "t2\<lparr>partitions := AList.update n q (partitions t2), chans := cs'\<rparr>"
    note f2 = getPartitionUnlocked_inv [OF inv g]
    have s: "vlite_step t call = Inr ?t'" using r CallDest by simp
    have st': "store ?t'" using f2(6) st by simp
    show ?thesis
    proof (cases "n = name")
      case True
      with f2(9) look have b: "bdp = p" by simp
      note f = dest_effect_pwf [OF e wb]
      have m: "map_of (partitions ?t') name = Some q" using True by (simp add: update_conv')
      have "step_effect p ?t' q"
        unfolding step_effect_def
        using f(1,4,5,6) dest_effect_release [OF e wb] b by (auto simp: pwf_def)
      with s i st' m show ?thesis by blast
    next
      case False
      with f2(8) look have m: "map_of (partitions ?t') name = Some p"
        by (simp add: update_conv')
      from i m have w': "pwf (chans ?t') (next_chan ?t') p"
        unfolding vlite_inv_def vinv_def by blast
      have "step_effect p ?t' p"
        unfolding step_effect_def using w' by (auto simp: pwf_def not_le)
      with s i st' m show ?thesis by blast
    qed
  next
    case (CallConsistencyWait n uuid level seq)
    from ConsistencyWait_enter_inv [OF inv, of n uuid level seq] look obtain r t' p' where
      e: "ConsistencyWait_enter t n uuid level seq = Inr (r, t')" and i: "vlite_inv t'"
      and s': "store t' = store t"
      and m: "map_of (partitions t') name = Some p'" "seqMax p' = seqMax p"
         "seqMaxBatch p' = seqMaxBatch p" "set (cwrQueue p) \<subseteq> set (cwrQueue p')"
      by blast
    from i m(1) have w': "pwf (chans t') (next_chan t') p'"
      unfolding vlite_inv_def vinv_def by blast
    have q: "\<not> ConsistencySeq c \<le> seqMaxBatch p' \<and> chans t' (DoneCh c) = make_chan \<and>
             c \<in> set (cwrQueue p') \<and> seqMaxBatch p' < ConsistencySeq c"
      if "c \<in> set (cwrQueue p)" for c
      using that w' m(4) by (auto simp: pwf_def not_le)
    have "step_effect p t' p'"
      unfolding step_effect_def using w' m(2,3) q by (simp add: pwf_def)
    moreover have "vlite_step t call = Inr t'" using e CallConsistencyWait by simp
    ultimately show ?thesis using i s' st m(1) by auto
  qed
qed

lemma vlite_run_monotone:
  assumes "vlite_inv t" "store t" "map_of (partitions t) name = Some p"
  shows "\<exists>t' p'. vlite_run t calls = Inr t' \<and> vlite_inv t' \<and> store t' \<and>
           map_of (partitions t') name = Some p' \<and>
           seqMaxBatch p \<le> seqMaxBatch p' \<and> seqMax p \<le> seqMax p'"
  using assms
proof (induction calls arbitrary: t p)
  case Nil
  then show ?case by simp
next
  case (Cons c calls)
  from vlite_step_effect [OF Cons.prems, of c] obtain t1 p1 where
    s: "vlite_step t c = Inr t1" and i: "vlite_inv t1" "store t1"
    "map_of (partitions t1) name = Some p1" and e: "step_effect p t1 p1" by blast
  from Cons.IH [OF i] obtain t' p' where
    r: "vlite_run t1 calls = Inr t'" "vlite_inv t'" "store t'"
    "map_of (partitions t') name = Some p'"
    and le: "seqMaxBatch p1 \<le> seqMaxBatch p'" "seqMax p1 \<le> seqMax p'" by blast
  from e have le1: "seqMaxBatch p \<le> seqMaxBatch p1" "seqMax p \<le> seqMax p1"
    by (simp_all add: step_effect_def)
  have "seqMaxBatch p \<le> seqMaxBatch p'" using le1(1) le(1) by (rule order_trans)
  moreover have "seqMax p \<le> seqMax p'" using le1(2) le(2) by (rule order_trans)
  moreover have "vlite_run t (c # calls) = Inr t'" using s r(1) by simp
  ultimately show ?case using r(2,3,4) by blast
qed

subsection \<open>Waiting, release, cancellation and close\<close>

text \<open>
  A sample store: one partition at sequence number 100 with one request waiting for 150.
\<close>

definition demo_cwr :: ConsistencyWaitReq where
  "demo_cwr = \<lparr>PartitionUUID = ''u1'', ConsistencyLevel = ''at_plus'', ConsistencySeq = 150,
               DoneCh = 0\<rparr>"

definition demo_part :: VLitePartition where
  "demo_part = \<lparr>partition = ''p0'', seqMax = 100, seqMaxBatch = 100, seqSnapEnd = 0,
                lastUUID = ''u1'', cwrQueue = [demo_cwr]\<rparr>"

definition demo_vlite :: VLite where
  "demo_vlite = \<lparr>store = True, file' = False, partitions = [(''p0'', demo_part)],
                 chans = (\<lambda>_. make_chan), next_chan = 1\<rparr>"

lemma is_heap_single: "is_heap [x]"
  by (simp add: is_heap_def)

lemma demo_vlite_inv: "vlite_inv demo_vlite"
  by (simp add: vlite_inv_def vinv_def pwf_def demo_vlite_def demo_part_def demo_cwr_def
        is_heap_single)

lemma demo_vlite_get: "getPartitionUnlocked demo_vlite ''p0'' = Inr (demo_part, demo_vlite)"
  by (simp add: getPartitionUnlocked_cases demo_vlite_def)

lemma ConsistencyWaitDone_no_cancel:
  "ConsistencyWaitDone name False tc make_chan s e = None"
  "ConsistencyWaitDone name False tc released s e = Some (None, released)"
  "ConsistencyWaitDone name False tc (drained err) s e = Some (Some err, released)"
  by (simp_all add: ConsistencyWaitDone_def chan_recv_def make_chan_def released_def drained_def)

lemma heap_min:
  assumes "is_heap h" "c \<in> set h"
  shows "ConsistencySeq (h ! 0) \<le> ConsistencySeq c"
proof -
  from assms(2) obtain j where "j < length h" "c = h ! j" by (auto simp: in_set_conv_nth)
  with is_heap_root_min [OF assms(1), of j] show ?thesis by (simp add: key_def)
qed

lemma ConsistencyWait_enter_queue:
  assumes inv: "vlite_inv t" and g: "getPartitionUnlocked t name = Inr (bdp, t2)"
  shows "\<exists>t'. vlite_inv t' \<and>
     (if uuid \<noteq> [] \<and> uuid \<noteq> lastUUID bdp then
        ConsistencyWait_enter t name uuid ''at_plus'' seq
          = Inr (Waiting (new_cwr t uuid seq) bdp, t') \<and>
        map_of (partitions t') name = Some bdp \<and>
        chans t' (next_chan t) = drained (MismatchedPartition (lastUUID bdp))
      else if seq \<le> seqMaxBatch bdp then
        ConsistencyWait_enter t name uuid ''at_plus'' seq
          = Inr (Waiting (new_cwr t uuid seq) bdp, t') \<and>
        map_of (partitions t') name = Some bdp \<and>
        chans t' (next_chan t) = released
      else
        ConsistencyWait_enter t name uuid ''at_plus'' seq
          = Inr (Waiting (new_cwr t uuid seq)
                   (bdp\<lparr>cwrQueue := heap_Push (cwrQueue bdp) (new_cwr t uuid seq)\<rparr>), t') \<and>
        map_of (partitions t') name
          = Some (bdp\<lparr>cwrQueue := heap_Push (cwrQueue bdp) (new_cwr t uuid seq)\<rparr>) \<and>
        chans t' (next_chan t) = make_chan)"
proof -
  note f2 = getPartitionUnlocked_inv [OF inv g]
  from ConsistencyWait_enter_inv [OF inv, of name uuid "''at_plus''" seq] obtain r t' where
    e: "ConsistencyWait_enter t name uuid ''at_plus'' seq = Inr (r, t')" and i: "vlite_inv t'"
    by blast
  note a = ConsistencyWait_enter_at_plus [OF g, where uuid = uuid and seq = seq]
  show ?thesis
  proof (intro exI [of _ t'] conjI i)
    show "if uuid \<noteq> [] \<and> uuid \<noteq> lastUUID bdp then
        ConsistencyWait_enter t name uuid ''at_plus'' seq
          = Inr (Waiting (new_cwr t uuid seq) bdp, t') \<and>
        map_of (partitions t') name = Some bdp \<and>
        chans t' (next_chan t) = drained (MismatchedPartition (lastUUID bdp))
      else if seq \<le> seqMaxBatch bdp then
        ConsistencyWait_enter t name uuid ''at_plus'' seq
          = Inr (Waiting (new_cwr t uuid seq) bdp, t') \<and>
        map_of (partitions t') name = Some bdp \<and>
        chans t' (next_chan t) = released
      else
        ConsistencyWait_enter t name uuid ''at_plus'' seq
          = Inr (Waiting (new_cwr t uuid seq)
                   (bdp\<lparr>cwrQueue := heap_Push (cwrQueue bdp) (new_cwr t uuid seq)\<rparr>), t') \<and>
        map_of (partitions t') name
          = Some (bdp\<lparr>cwrQueue := heap_Push (cwrQueue bdp) (new_cwr t uuid seq)\<rparr>) \<and>
        chans t' (next_chan t) = make_chan"
      using e a f2(2) by (auto simp: update_conv' not_less split: if_splits)
  qed
qed

text \<open>
  Claim C1.  In a state satisfying the invariant, with the store open and \<open>bdp\<close> the
  partition that \<open>getPartitionUnlocked\<close> yields: the empty level returns nil at once and
  leaves the state as it is; a level other than the empty one and \<open>at_plus\<close> returns an
  error; under \<open>at_plus\<close>, a non-empty partition UUID other than \<open>lastUUID\<close> has the
  error put into the channel, so that the wait fails at once; otherwise a sequence number
  at most \<open>seqMaxBatch\<close> has the channel closed, so that the wait succeeds at once; and
  otherwise the request is added to the queue, which is a heap with a smallest sequence
  number first, and the wait is pending.  After any call that does not close the store,
  for every request that was queued for the partition: its channel is closed (and the
  wait returns nil) if the sequence number asked for is at most the new \<open>seqMaxBatch\<close>,
  and otherwise the channel is untouched, the wait is pending and the request is still
  queued.  The waits are stated for a cancel channel that is not ready.
\<close>

theorem C1_ConsistencyWait:
  assumes inv: "vlite_inv t" and st: "store t"
      and g: "getPartitionUnlocked t name = Inr (bdp, t2)"
  shows "ConsistencyWait_enter t name uuid [] seq = Inr (Returned None, t)
    \<and> (level \<noteq> [] \<and> level \<noteq> ''at_plus'' \<longrightarrow>
         ConsistencyWait_enter t name uuid level seq
           = Inr (Returned (Some (UnsupportedConsistencyLevel level)), t))
    \<and> (\<exists>t'. vlite_inv t' \<and>
         (if uuid \<noteq> [] \<and> uuid \<noteq> lastUUID bdp then
            ConsistencyWait_enter t name uuid ''at_plus'' seq
              = Inr (Waiting (new_cwr t uuid seq) bdp, t') \<and>
            map_of (partitions t') name = Some bdp \<and>
            ConsistencyWait_return name False tc (chans t' (DoneCh (new_cwr t uuid seq))) b1 b2
              = Some (Some (MismatchedPartition (lastUUID bdp)), released)
          else if seq \<le> seqMaxBatch bdp then
            ConsistencyWait_enter t name uuid ''at_plus'' seq
              = Inr (Waiting (new_cwr t uuid seq) bdp, t') \<and>
            map_of (partitions t') name = Some bdp \<and>
            ConsistencyWait_return name False tc (chans t' (DoneCh (new_cwr t uuid seq))) b1 b2
              = Some (None, released)
          else
            (\<exists>bdp'. ConsistencyWait_enter t name uuid ''at_plus'' seq
                      = Inr (Waiting (new_cwr t uuid seq) bdp', t') \<and>
               map_of (partitions t') name = Some bdp' \<and>
               bdp' = bdp\<lparr>cwrQueue := heap_Push (cwrQueue bdp) (new_cwr t uuid seq)\<rparr> \<and>
               mset (cwrQueue bdp') = add_mset (new_cwr t uuid seq) (mset (cwrQueue bdp)) \<and>
               is_heap (cwrQueue bdp') \<and>
               (\<forall>c\<in>set (cwrQueue bdp').
                  ConsistencySeq (cwrQueue bdp' ! 0) \<le> ConsistencySeq c) \<and>
               ConsistencyWait_return name False tc
                 (chans t' (DoneCh (new_cwr t uuid seq))) b1 b2 = None)))
    \<and> (map_of (partitions t) name = Some bdp \<longrightarrow>
        (\<exists>t' p'. vlite_step t call = Inr t' \<and> vlite_inv t' \<and>
          map_of (partitions t') name = Some p' \<and> is_heap (cwrQueue p') \<and>
          (\<forall>c\<in>set (cwrQueue bdp).
             chans t' (DoneCh c)
               = (if ConsistencySeq c \<le> seqMaxBatch p' then released else make_chan) \<and>
             (c \<in> set (cwrQueue p') \<longleftrightarrow> seqMaxBatch p' < ConsistencySeq c) \<and>
             ConsistencyWait_return name False tc (chans t' (DoneCh c)) b1 b2
               = (if ConsistencySeq c \<le> seqMaxBatch p' then Some (None, released) else None))))"
proof -
  note f2 = getPartitionUnlocked_inv [OF inv g]
  have one: "ConsistencyWait_enter t name uuid [] seq = Inr (Returned None, t)"
    by (rule ConsistencyWait_enter_no_level)
  have two: "level \<noteq> [] \<and> level \<noteq> ''at_plus'' \<longrightarrow>
         ConsistencyWait_enter t name uuid level seq
           = Inr (Returned (Some (UnsupportedConsistencyLevel level)), t)"
    by (simp add: ConsistencyWait_enter_bad_level)
  from ConsistencyWait_enter_queue [OF inv g, of uuid seq] obtain t' where
    i: "vlite_inv t'" and q: "if uuid \<noteq> [] \<and> uuid \<noteq> lastUUID bdp then
        ConsistencyWait_enter t name uuid ''at_plus'' seq
          = Inr (Waiting (new_cwr t uuid seq) bdp, t') \<and>
        map_of (partitions t') name = Some bdp \<and>
        chans t' (next_chan t) = drained (MismatchedPartition (lastUUID bdp))
      else if seq \<le> seqMaxBatch bdp then
        ConsistencyWait_enter t name uuid ''at_plus'' seq
          = Inr (Waiting (new_cwr t uuid seq) bdp, t') \<and>
        map_of (partitions t') name = Some bdp \<and>
        chans t' (next_chan t) = released
      else
        ConsistencyWait_enter t name uuid ''at_plus'' seq
          = Inr (Waiting (new_cwr t uuid seq)
                   (bdp\<lparr>cwrQueue := heap_Push (cwrQueue bdp) (new_cwr t uuid seq)\<rparr>), t') \<and>
        map_of (partitions t') name
          = Some (bdp\<lparr>cwrQueue := heap_Push (cwrQueue bdp) (new_cwr t uuid seq)\<rparr>) \<and>
        chans t' (next_chan t) = make_chan"
    by blast
  from f2(1,2) have wb: "pwf (chans t2) (next_chan t2) bdp"
    unfolding vlite_inv_def vinv_def by blast
  then have hb: "is_heap (heap_Push (cwrQueue bdp) (new_cwr t uuid seq))"
    by (simp add: pwf_def heap_Push_is_heap)
  have dn: "DoneCh (new_cwr t uuid seq) = next_chan t" by (simp add: new_cwr_def)
  have three: "\<exists>t'. vlite_inv t' \<and>
         (if uuid \<noteq> [] \<and> uuid \<noteq> lastUUID bdp then
            ConsistencyWait_enter t name uuid ''at_plus'' seq
              = Inr (Waiting (new_cwr t uuid seq) bdp, t') \<and>
            map_of (partitions t') name = Some bdp \<and>
            ConsistencyWait_return name False tc (chans t' (DoneCh (new_cwr t uuid seq))) b1 b2
              = Some (Some (MismatchedPartition (lastUUID bdp)), released)
          else if seq \<le> seqMaxBatch bdp then
            ConsistencyWait_enter t name uuid ''at_plus'' seq
              = Inr (Waiting (new_cwr t uuid seq) bdp, t') \<and>
            map_of (partitions t') name = Some bdp \<and>
            ConsistencyWait_return name False tc (chans t' (DoneCh (new_cwr t uuid seq))) b1 b2
              = Some (None, released)
          else
            (\<exists>bdp'. ConsistencyWait_enter t name uuid ''at_plus'' seq
                      = Inr (Waiting (new_cwr t uuid seq) bdp', t') \<and>
               map_of (partitions t') name = Some bdp' \<and>
               bdp' = bdp\<lparr>cwrQueue := heap_Push (cwrQueue bdp) (new_cwr t uuid seq)\<rparr> \<and>
               mset (cwrQueue bdp') = add_mset (new_cwr t uuid seq) (mset (cwrQueue bdp)) \<and>
               is_heap (cwrQueue bdp') \<and>
               (\<forall>c\<in>set (cwrQueue bdp').
                  ConsistencySeq (cwrQueue bdp' ! 0) \<le> ConsistencySeq c) \<and>
               ConsistencyWait_return name False tc
                 (chans t' (DoneCh (new_cwr t uuid seq))) b1 b2 = None))"
  proof (intro exI [of _ t'] conjI i)
    consider (mis) "uuid \<noteq> [] \<and> uuid \<noteq> lastUUID bdp"
      | (ok) "\<not> (uuid \<noteq> [] \<and> uuid \<noteq> lastUUID bdp)" "seq \<le> seqMaxBatch bdp"
      | (push) "\<not> (uuid \<noteq> [] \<and> uuid \<noteq> lastUUID bdp)" "\<not> seq \<le> seqMaxBatch bdp"
      by blast
    then show "if uuid \<noteq> [] \<and> uuid \<noteq> lastUUID bdp then
            ConsistencyWait_enter t name uuid ''at_plus'' seq
              = Inr (Waiting (new_cwr t uuid seq) bdp, t') \<and>
            map_of (partitions t') name = Some bdp \<and>
            ConsistencyWait_return name False tc (chans t' (DoneCh (new_cwr t uuid seq))) b1 b2
              = Some (Some (MismatchedPartition (lastUUID bdp)), released)
          else if seq \<le> seqMaxBatch bdp then
            ConsistencyWait_enter t name uuid ''at_plus'' seq
              = Inr (Waiting (new_cwr t uuid seq) bdp, t') \<and>
            map_of (partitions t') name = Some bdp \<and>
            ConsistencyWait_return name False tc (chans t' (DoneCh (new_cwr t uuid seq))) b1 b2
              = Some (None, released)
          else
            (\<exists>bdp'. ConsistencyWait_enter t name uuid ''at_plus'' seq
                      = Inr (Waiting (new_cwr t uuid seq) bdp', t') \<and>
               map_of (partitions t') name = Some bdp' \<and>
               bdp' = bdp\<lparr>cwrQueue := heap_Push (cwrQueue bdp) (new_cwr t uuid seq)\<rparr> \<and>
               mset (cwrQueue bdp') = add_mset (new_cwr t uuid seq) (mset (cwrQueue bdp)) \<and>
               is_heap (cwrQueue bdp') \<and>
               (\<forall>c\<in>set (cwrQueue bdp').
                  ConsistencySeq (cwrQueue bdp' ! 0) \<le> ConsistencySeq c) \<and>
               ConsistencyWait_return name False tc
                 (chans t' (DoneCh (new_cwr t uuid seq))) b1 b2 = None)"
    proof cases
      case mis
      with q have "ConsistencyWait_enter t name uuid ''at_plus'' seq
          = Inr (Waiting (new_cwr t uuid seq) bdp, t')"
        "map_of (partitions t') name = Some bdp"
        "chans t' (next_chan t) = drained (MismatchedPartition (lastUUID bdp))"
        by simp_all
      with mis show ?thesis
        by (simp add: dn ConsistencyWait_return_def ConsistencyWaitDone_no_cancel)
    next
      case ok
      with q have "ConsistencyWait_enter t name uuid ''at_plus'' seq
          = Inr (Waiting (new_cwr t uuid seq) bdp, t')"
        "map_of (partitions t') name = Some bdp"
        "chans t' (next_chan t) = released"
        by auto
      with ok show ?thesis
        by (auto simp: dn ConsistencyWait_return_def ConsistencyWaitDone_no_cancel)
    next
      case push
      let ?b = "bdp\<lparr>cwrQueue := heap_Push (cwrQueue bdp) (new_cwr t uuid seq)\<rparr>"
      from push q have a: "ConsistencyWait_enter t name uuid ''at_plus'' seq
          = Inr (Waiting (new_cwr t uuid seq) ?b, t')"
        "map_of (partitions t') name = Some ?b"
        "chans t' (next_chan t) = make_chan"
        by auto
      have m: "mset (cwrQueue ?b) = add_mset (new_cwr t uuid seq) (mset (cwrQueue bdp))"
        by (simp add: mset_heap_Push)
      have h: "is_heap (cwrQueue ?b)" using hb by simp
      have mn: "\<forall>c\<in>set (cwrQueue ?b). ConsistencySeq (cwrQueue ?b ! 0) \<le> ConsistencySeq c"
        using heap_min [OF h] by blast
      have w: "ConsistencyWait_return name False tc
                 (chans t' (DoneCh (new_cwr t uuid seq))) b1 b2 = None"
        by (simp add: dn a(3) ConsistencyWait_return_def ConsistencyWaitDone_no_cancel)
      have "\<exists>bdp'. ConsistencyWait_enter t name uuid ''at_plus'' seq
                      = Inr (Waiting (new_cwr t uuid seq) bdp', t') \<and>
               map_of (partitions t') name = Some bdp' \<and>
               bdp' = bdp\<lparr>cwrQueue := heap_Push (cwrQueue bdp) (new_cwr t uuid seq)\<rparr> \<and>
               mset (cwrQueue bdp') = add_mset (new_cwr t uuid seq) (mset (cwrQueue bdp)) \<and>
               is_heap (cwrQueue bdp') \<and>
               (\<forall>c\<in>set (cwrQueue bdp').
                  ConsistencySeq (cwrQueue bdp' ! 0) \<le> ConsistencySeq c) \<and>
               ConsistencyWait_return name False tc
                 (chans t' (DoneCh (new_cwr t uuid seq))) b1 b2 = None"
        using a(1,2) m h mn w by (intro exI [of _ ?b]) blast
      with push show ?thesis by auto
    qed
  qed
  have four: "map_of (partitions t) name = Some bdp \<longrightarrow>
        (\<exists>t' p'. vlite_step t call = Inr t' \<and> vlite_inv t' \<and>
          map_of (partitions t') name = Some p' \<and> is_heap (cwrQueue p') \<and>
          (\<forall>c\<in>set (cwrQueue bdp).
             chans t' (DoneCh c)
               = (if ConsistencySeq c \<le> seqMaxBatch p' then released else make_chan) \<and>
             (c \<in> set (cwrQueue p') \<longleftrightarrow> seqMaxBatch p' < ConsistencySeq c) \<and>
             ConsistencyWait_return name False tc (chans t' (DoneCh c)) b1 b2
               = (if ConsistencySeq c \<le> seqMaxBatch p' then Some (None, released) else None)))"
  proof
    assume look: "map_of (partitions t) name = Some bdp"
    from vlite_step_effect [OF inv st look, of call] obtain t' p' where
      s: "vlite_step t call = Inr t'" "vlite_inv t'" "map_of (partitions t') name = Some p'"
      and e: "step_effect bdp t' p'" by blast
    from e have "is_heap (cwrQueue p')"
      and "\<forall>c\<in>set (cwrQueue bdp).
             chans t' (DoneCh c)
               = (if ConsistencySeq c \<le> seqMaxBatch p' then released else make_chan) \<and>
             (c \<in> set (cwrQueue p') \<longleftrightarrow> seqMaxBatch p' < ConsistencySeq c) \<and>
             ConsistencyWait_return name False tc (chans t' (DoneCh c)) b1 b2
               = (if ConsistencySeq c \<le> seqMaxBatch p' then Some (None, released) else None)"
      by (simp_all add: step_effect_def ConsistencyWait_return_def ConsistencyWaitDone_no_cancel)
    with s show "\<exists>t' p'. vlite_step t call = Inr t' \<and> vlite_inv t' \<and>
          map_of (partitions t') name = Some p' \<and> is_heap (cwrQueue p') \<and>
          (\<forall>c\<in>set (cwrQueue bdp).
             chans t' (DoneCh c)
               = (if ConsistencySeq c \<le> seqMaxBatch p' then released else make_chan) \<and>
             (c \<in> set (cwrQueue p') \<longleftrightarrow> seqMaxBatch p' < ConsistencySeq c) \<and>
             ConsistencyWait_return name False tc (chans t' (DoneCh c)) b1 b2
               = (if ConsistencySeq c \<le> seqMaxBatch p' then Some (None, released) else None))"
      by blast
  qed
  from one two three four show ?thesis by blast
qed

theorem C1_ConsistencyWait_witness:
  "vlite_inv demo_vlite \<and> store demo_vlite
   \<and> getPartitionUnlocked demo_vlite ''p0'' = Inr (demo_part, demo_vlite)
   \<and> map_of (partitions demo_vlite) ''p0'' = Some demo_part
   \<and> demo_cwr \<in> set (cwrQueue demo_part)
   \<and> ConsistencyWait_enter demo_vlite ''p0'' ''u1'' [] 170 = Inr (Returned None, demo_vlite)
   \<and> ConsistencyWait_enter demo_vlite ''p0'' ''u1'' ''at_least'' 170
       = Inr (Returned (Some (UnsupportedConsistencyLevel ''at_least'')), demo_vlite)
   \<and> (\<exists>t'. ConsistencyWait_enter demo_vlite ''p0'' ''u1'' ''at_plus'' 100
              = Inr (Waiting (new_cwr demo_vlite ''u1'' 100) demo_part, t') \<and>
            ConsistencyWait_return ''p0'' False False (chans t' 1) demo_part demo_part
              = Some (None, released))
   \<and> (\<exists>t' p'. vlite_step demo_vlite (CallDest ''p0'' None (CallDataUpdate None 200)) = Inr t' \<and>
          map_of (partitions t') ''p0'' = Some p' \<and>
          chans t' 0 = (if 150 \<le> seqMaxBatch p' then released else make_chan))"
proof -
  have st: "store demo_vlite" by (simp add: demo_vlite_def)
  have look: "map_of (partitions demo_vlite) ''p0'' = Some demo_part"
    by (simp add: demo_vlite_def)
  have mem: "demo_cwr \<in> set (cwrQueue demo_part)" by (simp add: demo_part_def)
  note inst = C1_ConsistencyWait [OF demo_vlite_inv st demo_vlite_get,
      where uuid = "''u1''" and seq = 100 and level = "''at_least''" and tc = False
        and ?b1.0 = demo_part and ?b2.0 = demo_part
        and call = "CallDest ''p0'' None (CallDataUpdate None 200)"]
  have c1: "ConsistencyWait_enter demo_vlite ''p0'' ''u1'' [] 170 = Inr (Returned None, demo_vlite)"
    by (simp add: ConsistencyWait_enter_no_level)
  have c2: "ConsistencyWait_enter demo_vlite ''p0'' ''u1'' ''at_least'' 170
       = Inr (Returned (Some (UnsupportedConsistencyLevel ''at_least'')), demo_vlite)"
    by (simp add: ConsistencyWait_enter_bad_level)
  have lu: "\<not> (''u1'' \<noteq> [] \<and> ''u1'' \<noteq> lastUUID demo_part)" "100 \<le> seqMaxBatch demo_part"
    "DoneCh (new_cwr demo_vlite ''u1'' 100) = 1"
    by (simp_all add: demo_part_def new_cwr_def demo_vlite_def)
  from inst [THEN conjunct2, THEN conjunct2, THEN conjunct1] obtain t' where
    "if ''u1'' \<noteq> [] \<and> ''u1'' \<noteq> lastUUID demo_part then
       ConsistencyWait_enter demo_vlite ''p0'' ''u1'' ''at_plus'' 100
         = Inr (Waiting (new_cwr demo_vlite ''u1'' 100) demo_part, t') \<and>
       map_of (partitions t') ''p0'' = Some demo_part \<and>
       ConsistencyWait_return ''p0'' False False
         (chans t' (DoneCh (new_cwr demo_vlite ''u1'' 100))) demo_part demo_part
         = Some (Some (MismatchedPartition (lastUUID demo_part)), released)
     else if 100 \<le> seqMaxBatch demo_part then
       ConsistencyWait_enter demo_vlite ''p0'' ''u1'' ''at_plus'' 100
         = Inr (Waiting (new_cwr demo_vlite ''u1'' 100) demo_part, t') \<and>
       map_of (partitions t') ''p0'' = Some demo_part \<and>
       ConsistencyWait_return ''p0'' False False
         (chans t' (DoneCh (new_cwr demo_vlite ''u1'' 100))) demo_part demo_part
         = Some (None, released)
     else
       (\<exists>bdp'. ConsistencyWait_enter demo_vlite ''p0'' ''u1'' ''at_plus'' 100
                 = Inr (Waiting (new_cwr demo_vlite ''u1'' 100) bdp', t') \<and>
          map_of (partitions t') ''p0'' = Some bdp' \<and>
          bdp' = demo_part\<lparr>cwrQueue :=
                   heap_Push (cwrQueue demo_part) (new_cwr demo_vlite ''u1'' 100)\<rparr> \<and>
          mset (cwrQueue bdp')
            = add_mset (new_cwr demo_vlite ''u1'' 100) (mset (cwrQueue demo_part)) \<and>
          is_heap (cwrQueue bdp') \<and>
          (\<forall>c\<in>set (cwrQueue bdp'). ConsistencySeq (cwrQueue bdp' ! 0) \<le> ConsistencySeq c) \<and>
          ConsistencyWait_return ''p0'' False False
            (chans t' (DoneCh (new_cwr demo_vlite ''u1'' 100))) demo_part demo_part = None)"
    by blast
  then have "ConsistencyWait_enter demo_vlite ''p0'' ''u1'' ''at_plus'' 100
         = Inr (Waiting (new_cwr demo_vlite ''u1'' 100) demo_part, t') \<and>
       ConsistencyWait_return ''p0'' False False (chans t' 1) demo_part demo_part
         = Some (None, released)"
    using lu by simp
  then have c3: "\<exists>t'. ConsistencyWait_enter demo_vlite ''p0'' ''u1'' ''at_plus'' 100
              = Inr (Waiting (new_cwr demo_vlite ''u1'' 100) demo_part, t') \<and>
            ConsistencyWait_return ''p0'' False False (chans t' 1) demo_part demo_part
              = Some (None, released)"
    by blast
  from inst [THEN conjunct2, THEN conjunct2, THEN conjunct2, rule_format, OF look]
  obtain t'' p' where
    s: "vlite_step demo_vlite (CallDest ''p0'' None (CallDataUpdate None 200)) = Inr t''"
       "map_of (partitions t'') ''p0'' = Some p'"
    and a: "\<forall>c\<in>set (cwrQueue demo_part).
             chans t'' (DoneCh c)
               = (if ConsistencySeq c \<le> seqMaxBatch p' then released else make_chan) \<and>
             (c \<in> set (cwrQueue p') \<longleftrightarrow> seqMaxBatch p' < ConsistencySeq c) \<and>
             ConsistencyWait_return ''p0'' False False (chans t'' (DoneCh c)) demo_part demo_part
               = (if ConsistencySeq c \<le> seqMaxBatch p' then Some (None, released) else None)"
    by blast
  from a mem have "chans t'' (DoneCh demo_cwr)
               = (if ConsistencySeq demo_cwr \<le> seqMaxBatch p' then released else make_chan)"
    by blast
  then have "chans t'' 0 = (if 150 \<le> seqMaxBatch p' then released else make_chan)"
    by (simp add: demo_cwr_def)
  with s have c4: "\<exists>t' p'.
          vlite_step demo_vlite (CallDest ''p0'' None (CallDataUpdate None 200)) = Inr t' \<and>
          map_of (partitions t') ''p0'' = Some p' \<and>
          chans t' 0 = (if 150 \<le> seqMaxBatch p' then released else make_chan)"
    by blast
  from demo_vlite_inv st demo_vlite_get look mem c1 c2 c3 c4 show ?thesis by blast
qed

text \<open>
  Claim C4.  For a partition of an open store satisfying the invariant: after every run of
  calls of \<open>DataUpdate\<close>, \<open>DataDelete\<close>, \<open>SnapshotStart\<close>, \<open>OpaqueGet\<close>, \<open>OpaqueSet\<close>
  and \<open>ConsistencyWait\<close>, on this or other partitions, the partition is still there and
  neither \<open>seqMaxBatch\<close> nor \<open>seqMax\<close> is smaller than before; a single call leaves
  \<open>seqMaxBatch\<close> as it is or sets it to \<open>seqMax\<close>; \<open>Rollback\<close> closes the store and
  drops every partition; and in a new store a partition starts from zero.
\<close>

theorem C4_seqMaxBatch_monotone:
  assumes inv: "vlite_inv t" and st: "store t"
      and look: "map_of (partitions t) name = Some p"
  shows "(\<exists>t' p'. vlite_run t calls = Inr t' \<and> vlite_inv t' \<and> store t' \<and>
             map_of (partitions t') name = Some p' \<and>
             seqMaxBatch p \<le> seqMaxBatch p' \<and> seqMax p \<le> seqMax p')
    \<and> (\<exists>t' p'. vlite_step t call = Inr t' \<and> vlite_inv t' \<and> store t' \<and>
             map_of (partitions t') name = Some p' \<and>
             (seqMaxBatch p' = seqMaxBatch p \<or> seqMaxBatch p' = seqMax p') \<and>
             seqMaxBatch p \<le> seqMaxBatch p' \<and> seqMax p \<le> seqMax p')
    \<and> (\<exists>cs'. Rollback t nm rollbackSeq
                 = Inr (None, t\<lparr>partitions := [], store := False, chans := cs'\<rparr>))
    \<and> (\<exists>t0 t1. NewVLite vfile None = Inr t0 \<and> vlite_inv t0 \<and> store t0 \<and>
            getPartitionUnlocked t0 name = Inr (zero_partition name, t1) \<and>
            seqMaxBatch (zero_partition name) = 0 \<and> seqMax (zero_partition name) = 0)"
proof -
  have one: "\<exists>t' p'. vlite_run t calls = Inr t' \<and> vlite_inv t' \<and> store t' \<and>
             map_of (partitions t') name = Some p' \<and>
             seqMaxBatch p \<le> seqMaxBatch p' \<and> seqMax p \<le> seqMax p'"
    by (rule vlite_run_monotone [OF inv st look])
  from vlite_step_effect [OF inv st look, of call]
  have two: "\<exists>t' p'. vlite_step t call = Inr t' \<and> vlite_inv t' \<and> store t' \<and>
             map_of (partitions t') name = Some p' \<and>
             (seqMaxBatch p' = seqMaxBatch p \<or> seqMaxBatch p' = seqMax p') \<and>
             seqMaxBatch p \<le> seqMaxBatch p' \<and> seqMax p \<le> seqMax p'"
    unfolding step_effect_def by blast
  from closeUnlocked_correct [OF inv st]
  have three: "\<exists>cs'. Rollback t nm rollbackSeq
                 = Inr (None, t\<lparr>partitions := [], store := False, chans := cs'\<rparr>)"
    unfolding Rollback_def by blast
  have four: "\<exists>t0 t1. NewVLite vfile None = Inr t0 \<and> vlite_inv t0 \<and> store t0 \<and>
            getPartitionUnlocked t0 name = Inr (zero_partition name, t1) \<and>
            seqMaxBatch (zero_partition name) = 0 \<and> seqMax (zero_partition name) = 0"
    by (simp add: NewVLite_def vlite_inv_def vinv_Nil getPartitionUnlocked_cases
          zero_partition_def)
  from one two three four show ?thesis by blast
qed

theorem C4_seqMaxBatch_monotone_witness:
  "vlite_inv demo_vlite \<and> store demo_vlite
   \<and> map_of (partitions demo_vlite) ''p0'' = Some demo_part
   \<and> (\<exists>t' p'. vlite_run demo_vlite
                   [CallDest ''p0'' None (CallDataUpdate None 120),
                    CallConsistencyWait ''p0'' [] ''at_plus'' 300,
                    CallDest ''p0'' None (CallSnapshotStart 120 400),
                    CallDest ''p0'' None (CallDataDelete 90)] = Inr t' \<and>
          map_of (partitions t') ''p0'' = Some p' \<and> 100 \<le> seqMaxBatch p')"
proof -
  have st: "store demo_vlite" by (simp add: demo_vlite_def)
  have look: "map_of (partitions demo_vlite) ''p0'' = Some demo_part"
    by (simp add: demo_vlite_def)
  from C4_seqMaxBatch_monotone [OF demo_vlite_inv st look,
      where calls = "[CallDest ''p0'' None (CallDataUpdate None 120),
                    CallConsistencyWait ''p0'' [] ''at_plus'' 300,
                    CallDest ''p0'' None (CallSnapshotStart 120 400),
                    CallDest ''p0'' None (CallDataDelete 90)]", THEN conjunct1]
  obtain t' p' where
    "vlite_run demo_vlite
                   [CallDest ''p0'' None (CallDataUpdate None 120),
                    CallConsistencyWait ''p0'' [] ''at_plus'' 300,
                    CallDest ''p0'' None (CallSnapshotStart 120 400),
                    CallDest ''p0'' None (CallDataDelete 90)] = Inr t'"
    "map_of (partitions t') ''p0'' = Some p'" "seqMaxBatch demo_part \<le> seqMaxBatch p'"
    by blast
  moreover have "seqMaxBatch demo_part = 100" by (simp add: demo_part_def)
  ultimately have "\<exists>t' p'. vlite_run demo_vlite
                   [CallDest ''p0'' None (CallDataUpdate None 120),
                    CallConsistencyWait ''p0'' [] ''at_plus'' 300,
                    CallDest ''p0'' None (CallSnapshotStart 120 400),
                    CallDest ''p0'' None (CallDataDelete 90)] = Inr t' \<and>
          map_of (partitions t') ''p0'' = Some p' \<and> 100 \<le> seqMaxBatch p'"
    by auto
  with demo_vlite_inv st look show ?thesis by blast
qed

text \<open>
  Claim C7.  A wait whose channel is not ready, or whose \<open>select\<close> takes the cancel
  branch, returns, once the cancel channel is ready, the error \<open>ErrorConsistencyWait\<close>
  with status \<open>cancelled\<close> and the pair of the two values of \<open>seqMaxBatch\<close> read at the
  start and at the cancellation under the name of the partition, and leaves the channel of
  the request alone; every queued request is such a pending wait.  Closing an open store
  empties the map and has every request that was queued in any partition receive the error
  of the close on its channel, which is then closed; no other channel changes.
\<close>

theorem C7_cancel_and_close:
  assumes inv: "vlite_inv t" and st: "store t"
  shows "(chan_recv doneCh = None \<or> take_cancel \<longrightarrow>
            ConsistencyWait_return name True take_cancel doneCh bdp_start bdp_end
              = Some (Some (ErrorConsistencyWait WaitDoneCancelled ''cancelled''
                              [(name, [seqMaxBatch bdp_start, seqMaxBatch bdp_end])]),
                      doneCh))
    \<and> (\<forall>p c. map_of (partitions t) name = Some p \<and> c \<in> set (cwrQueue p) \<longrightarrow>
            chan_recv (chans t (DoneCh c)) = None)
    \<and> (\<exists>cs'. closeUnlocked t
                 = Inr (None, t\<lparr>partitions := [], store := False, chans := cs'\<rparr>) \<and>
          (\<forall>nm p c. map_of (partitions t) nm = Some p \<and> c \<in> set (cwrQueue p) \<longrightarrow>
             cs' (DoneCh c) = drained CloseUnlocked \<and>
             ConsistencyWait_return nm False tc (cs' (DoneCh c)) b1 b2
               = Some (Some CloseUnlocked, released)) \<and>
          (\<forall>n. (\<forall>nm p c. map_of (partitions t) nm = Some p \<and> c \<in> set (cwrQueue p)
                     \<longrightarrow> DoneCh c \<noteq> n) \<longrightarrow> cs' n = chans t n))"
proof -
  have one: "chan_recv doneCh = None \<or> take_cancel \<longrightarrow>
            ConsistencyWait_return name True take_cancel doneCh bdp_start bdp_end
              = Some (Some (ErrorConsistencyWait WaitDoneCancelled ''cancelled''
                              [(name, [seqMaxBatch bdp_start, seqMaxBatch bdp_end])]),
                      doneCh)"
    by (auto simp: ConsistencyWait_return_def ConsistencyWaitDone_def Let_def
             split: option.splits prod.splits)
  have two: "\<forall>p c. map_of (partitions t) name = Some p \<and> c \<in> set (cwrQueue p) \<longrightarrow>
            chan_recv (chans t (DoneCh c)) = None"
  proof (intro allI impI)
    fix p c assume h: "map_of (partitions t) name = Some p \<and> c \<in> set (cwrQueue p)"
    with inv have "pwf (chans t) (next_chan t) p" unfolding vlite_inv_def vinv_def by blast
    with h have "chans t (DoneCh c) = make_chan" by (simp add: pwf_def)
    then show "chan_recv (chans t (DoneCh c)) = None"
      by (simp add: chan_recv_def make_chan_def)
  qed
  from closeUnlocked_correct [OF inv st] obtain cs' where
    r: "closeUnlocked t = Inr (None, t\<lparr>partitions := [], store := False, chans := cs'\<rparr>)"
    and c: "\<And>n. cs' n = (if \<exists>nm p c. map_of (partitions t) nm = Some p \<and>
                                c \<in> set (cwrQueue p) \<and> DoneCh c = n
                          then drained CloseUnlocked else chans t n)"
    by blast
  have d: "cs' (DoneCh c) = drained CloseUnlocked"
    if "map_of (partitions t) nm = Some p" "c \<in> set (cwrQueue p)" for nm p c
    using c [of "DoneCh c"] that by auto
  have k: "cs' n = chans t n"
    if "\<forall>nm p c. map_of (partitions t) nm = Some p \<and> c \<in> set (cwrQueue p) \<longrightarrow> DoneCh c \<noteq> n"
    for n
    using c [of n] that by auto
  have three: "\<exists>cs'. closeUnlocked t
                 = Inr (None, t\<lparr>partitions := [], store := False, chans := cs'\<rparr>) \<and>
          (\<forall>nm p c. map_of (partitions t) nm = Some p \<and> c \<in> set (cwrQueue p) \<longrightarrow>
             cs' (DoneCh c) = drained CloseUnlocked \<and>
             ConsistencyWait_return nm False tc (cs' (DoneCh c)) b1 b2
               = Some (Some CloseUnlocked, released)) \<and>
          (\<forall>n. (\<forall>nm p c. map_of (partitions t) nm = Some p \<and> c \<in> set (cwrQueue p)
                     \<longrightarrow> DoneCh c \<noteq> n) \<longrightarrow> cs' n = chans t n)"
  proof (intro exI [of _ cs'] conjI r)
    show "\<forall>nm p c. map_of (partitions t) nm = Some p \<and> c \<in> set (cwrQueue p) \<longrightarrow>
             cs' (DoneCh c) = drained CloseUnlocked \<and>
             ConsistencyWait_return nm False tc (cs' (DoneCh c)) b1 b2
               = Some (Some CloseUnlocked, released)"
    proof (intro allI impI)
      fix nm p c assume "map_of (partitions t) nm = Some p \<and> c \<in> set (cwrQueue p)"
      then have x: "cs' (DoneCh c) = drained CloseUnlocked" using d by blast
      then show "cs' (DoneCh c) = drained CloseUnlocked \<and>
             ConsistencyWait_return nm False tc (cs' (DoneCh c)) b1 b2
               = Some (Some CloseUnlocked, released)"
        by (simp add: ConsistencyWait_return_def ConsistencyWaitDone_no_cancel)
    qed
    show "\<forall>n. (\<forall>nm p c. map_of (partitions t) nm = Some p \<and> c \<in> set (cwrQueue p)
                     \<longrightarrow> DoneCh c \<noteq> n) \<longrightarrow> cs' n = chans t n"
      using k by blast
  qed
  from one two three show ?thesis by blast
qed

theorem C7_cancel_and_close_witness:
  "vlite_inv demo_vlite \<and> store demo_vlite
   \<and> map_of (partitions demo_vlite) ''p0'' = Some demo_part
   \<and> demo_cwr \<in> set (cwrQueue demo_part)
   \<and> chan_recv (chans demo_vlite (DoneCh demo_cwr)) = None
   \<and> ConsistencyWait_return ''p0'' True False (chans demo_vlite (DoneCh demo_cwr))
         demo_part demo_part
       = Some (Some (ErrorConsistencyWait WaitDoneCancelled ''cancelled''
                       [(''p0'', [100, 100])]), make_chan)
   \<and> (\<exists>cs'. closeUnlocked demo_vlite
                = Inr (None, demo_vlite\<lparr>partitions := [], store := False, chans := cs'\<rparr>) \<and>
            cs' 0 = drained CloseUnlocked \<and> cs' 1 = make_chan)"
proof -
  have st: "store demo_vlite" by (simp add: demo_vlite_def)
  have look: "map_of (partitions demo_vlite) ''p0'' = Some demo_part"
    by (simp add: demo_vlite_def)
  have mem: "demo_cwr \<in> set (cwrQueue demo_part)" by (simp add: demo_part_def)
  note inst = C7_cancel_and_close [OF demo_vlite_inv st,
      where name = "''p0''" and doneCh = "chans demo_vlite (DoneCh demo_cwr)"
        and take_cancel = False and bdp_start = demo_part and bdp_end = demo_part
        and tc = False and ?b1.0 = demo_part and ?b2.0 = demo_part]
  from inst [THEN conjunct2, THEN conjunct1] look mem
  have pend: "chan_recv (chans demo_vlite (DoneCh demo_cwr)) = None"
    by blast
  with inst [THEN conjunct1] have canc: "ConsistencyWait_return ''p0'' True False
         (chans demo_vlite (DoneCh demo_cwr)) demo_part demo_part
       = Some (Some (ErrorConsistencyWait WaitDoneCancelled ''cancelled''
                       [(''p0'', [100, 100])]), make_chan)"
    by (simp add: demo_part_def demo_vlite_def)
  from inst [THEN conjunct2, THEN conjunct2] obtain cs' where
    r: "closeUnlocked demo_vlite
          = Inr (None, demo_vlite\<lparr>partitions := [], store := False, chans := cs'\<rparr>)"
    and d: "\<forall>nm p c. map_of (partitions demo_vlite) nm = Some p \<and> c \<in> set (cwrQueue p) \<longrightarrow>
             cs' (DoneCh c) = drained CloseUnlocked"
    and k: "\<forall>n. (\<forall>nm p c. map_of (partitions demo_vlite) nm = Some p \<and> c \<in> set (cwrQueue p)
                     \<longrightarrow> DoneCh c \<noteq> n) \<longrightarrow> cs' n = chans demo_vlite n"
    by blast
  from d look mem have "cs' (DoneCh demo_cwr) = drained CloseUnlocked" by blast
  then have c0: "cs' 0 = drained CloseUnlocked" by (simp add: demo_cwr_def)
  have "\<forall>nm p c. map_of (partitions demo_vlite) nm = Some p \<and> c \<in> set (cwrQueue p)
                     \<longrightarrow> DoneCh c \<noteq> 1"
    by (auto simp: demo_vlite_def demo_part_def demo_cwr_def split: if_splits)
  with k have "cs' 1 = chans demo_vlite 1" by blast
  then have c1: "cs' 1 = make_chan" by (simp add: demo_vlite_def)
  from demo_vlite_inv st look mem pend canc r c0 c1 show ?thesis by blast
qed

lemma heap_up_stop: "(j - 1) div 2 = j \<or> \<not> Less h j ((j - 1) div 2) \<Longrightarrow> heap_up h j = h"
  by (subst heap_up.simps) (simp add: Let_def)

lemma heap_up_step:
  "(j - 1) div 2 \<noteq> j \<Longrightarrow> Less h j ((j - 1) div 2) \<Longrightarrow>
   heap_up h j = heap_up (Swap h ((j - 1) div 2) j) ((j - 1) div 2)"
  by (subst heap_up.simps) (simp add: Let_def)

lemma heap_down_stop: "n \<le> 2 * i + 1 \<Longrightarrow> heap_down h i n = h"
  by (subst heap_down.simps) (simp add: Let_def)

lemma applyBatch_loop_stop:
  "\<not> (length (cwrQueue t) > 0 \<and> ConsistencySeq (cwrQueue t ! 0) \<le> seqMaxBatch t) \<Longrightarrow>
   applyBatch_loop t cs = Inr (t, cs)"
  by (subst applyBatch_loop.simps) auto

lemma applyBatch_loop_step:
  "length (cwrQueue t) > 0 \<and> ConsistencySeq (cwrQueue t ! 0) \<le> seqMaxBatch t \<Longrightarrow>
   applyBatch_loop t cs =
     (case heap_Pop (cwrQueue t) of
        None \<Rightarrow> Inl Panic
      | Some (cwr, q) \<Rightarrow>
          (case chan_close (cs (DoneCh cwr)) of
             Inl f \<Rightarrow> Inl f
           | Inr c' \<Rightarrow> applyBatch_loop (t\<lparr>cwrQueue := q\<rparr>) (cs(DoneCh cwr := c'))))"
  by (subst applyBatch_loop.simps) auto

text \<open>
  The calls on the sample store, evaluated: an update to 120 leaves the request for 150
  queued, an update to 200 releases it, a wait for 130 is queued in front of it, and a
  close answers it with the error.
\<close>

lemmas vlite_eval =
  vlite_step.simps Dest_call_def getPartitionUnlocked_cases dest_step.simps DataUpdate_def
  DataDelete_def SnapshotStart_def updateSeqUnlocked_def applyBatchUnlocked_def
  applyBatch_loop_stop applyBatch_loop_step heap_Pop_def heap_down_stop heap_Push_def
  heap_up_stop heap_up_step Swap_def
  Less_def chan_close_def chan_send_def make_chan_def released_def drained_def Let_def
  update_conv' ConsistencyWait_enter_def

lemma demo_not_released:
  "vlite_step demo_vlite (CallDest ''p0'' None (CallDataUpdate None 120))
   = Inr (demo_vlite\<lparr>partitions := [(''p0'', demo_part\<lparr>seqMax := 120, seqMaxBatch := 120\<rparr>)]\<rparr>)"
  by (simp add: vlite_eval demo_vlite_def demo_part_def demo_cwr_def)

lemma demo_released:
  "vlite_step demo_vlite (CallDest ''p0'' None (CallDataUpdate None 200))
   = Inr (demo_vlite\<lparr>partitions :=
            [(''p0'', demo_part\<lparr>seqMax := 200, seqMaxBatch := 200, cwrQueue := []\<rparr>)],
          chans := (chans demo_vlite)(0 := released)\<rparr>)"
  by (simp add: vlite_eval demo_vlite_def demo_part_def demo_cwr_def)

lemma demo_enqueue:
  "vlite_step demo_vlite (CallConsistencyWait ''p0'' ''u1'' ''at_plus'' 130)
   = Inr (demo_vlite\<lparr>partitions :=
            [(''p0'', demo_part\<lparr>cwrQueue :=
                [\<lparr>PartitionUUID = ''u1'', ConsistencyLevel = ''at_plus'', ConsistencySeq = 130,
                  DoneCh = 1\<rparr>, demo_cwr]\<rparr>)],
          chans := (chans demo_vlite)(1 := make_chan), next_chan := 2\<rparr>)"
  by (simp add: vlite_eval demo_vlite_def demo_part_def demo_cwr_def)

lemma demo_close:
  "closeUnlocked demo_vlite
   = Inr (None, demo_vlite\<lparr>partitions := [], store := False,
                  chans := (chans demo_vlite)(0 := drained CloseUnlocked)\<rparr>)"
  by (simp add: closeUnlocked_def vlite_eval demo_vlite_def demo_part_def demo_cwr_def)

section \<open>Index aliases (misc.go)\<close>

text \<open>
  The errors of alias resolution in the order of the source, the ceiling on the number of
  alias targets, and what resolution reads from outside: the index definitions by name (the
  map \<open>IndexDefs\<close>), the parsing of the parameters of an alias into its targets (the target
  name with the optional UUID, in the order in which the map of targets is iterated;
  \<open>None\<close> when the JSON does not parse), and \<open>bleveIndexAlias\<close>, which yields the
  endpoint for an engine index or fails.
\<close>

datatype alias_error =
    CouldNotGetIndexDefs
  | CouldNotGetAliasDef
  | NotAliasType string
  | MismatchedAliasUUID
  | CouldNotParseParams
  | TooManyAliasTargets
  | TargetDoesNotExist string
  | MismatchedTargetUUID
  | UnsupportedTargetType string
  | SubAliasError string

definition maxAliasTargets :: int where
  "maxAliasTargets = 50000"

record 'a AliasEnv =
  IndexDefs :: "string \<rightharpoonup> IndexDef"
  parseAliasParams :: "string \<Rightarrow> (string \<times> string) list option"
  bleveIndexAlias :: "string \<Rightarrow> string \<Rightarrow> alias_error + 'a"

text \<open>
  The variables that the closure \<open>fillAlias\<close> shares with its caller: the alias being
  filled (the endpoints added so far) and the counter \<open>num\<close>.
\<close>

record 'a alias_state =
  alias' :: "'a list"
  num :: int

text \<open>
  \<open>fillAlias\<close> and the loop over the targets of one alias.  The recursion of the source has
  no bound of its own; \<open>depth\<close> bounds the nesting of the calls of \<open>fillAlias\<close>, and the
  result is \<open>None\<close> when a call is not finished within that nesting.  A resolution that
  gives \<open>None\<close> for every depth never returns.
\<close>

fun fillAlias ::
  "nat \<Rightarrow> 'a AliasEnv \<Rightarrow> string \<Rightarrow> string \<Rightarrow> 'a alias_state
   \<Rightarrow> (alias_error + 'a alias_state) option"
and fillAlias_targets ::
  "nat \<Rightarrow> 'a AliasEnv \<Rightarrow> string \<Rightarrow> (string \<times> string) list \<Rightarrow> 'a alias_state
   \<Rightarrow> (alias_error + 'a alias_state) option"
where
  "fillAlias 0 env aliasName aliasUUID st = None"
| "fillAlias (Suc depth) env aliasName aliasUUID st =
     (case IndexDefs env aliasName of
        None \<Rightarrow> Some (Inl CouldNotGetAliasDef)
      | Some aliasDef \<Rightarrow>
          if IndexDef.Type aliasDef \<noteq> ''alias''
          then Some (Inl (NotAliasType (IndexDef.Type aliasDef)))
          else if aliasUUID \<noteq> [] \<and> aliasUUID \<noteq> IndexDef.UUID aliasDef
          then Some (Inl MismatchedAliasUUID)
          else
            (case parseAliasParams env (IndexDef.Params aliasDef) of
               None \<Rightarrow> Some (Inl CouldNotParseParams)
             | Some targets \<Rightarrow> fillAlias_targets depth env aliasName targets st))"
| "fillAlias_targets depth env aliasName [] st = Some (Inr st)"
| "fillAlias_targets depth env aliasName ((targetName, targetSpec_IndexUUID) # rest) st =
     (if num st > maxAliasTargets then Some (Inl TooManyAliasTargets)
      else
        (case IndexDefs env targetName of
           None \<Rightarrow> Some (Inl (TargetDoesNotExist targetName))
         | Some targetDef \<Rightarrow>
             if targetSpec_IndexUUID \<noteq> [] \<and> targetSpec_IndexUUID \<noteq> IndexDef.UUID targetDef
             then Some (Inl MismatchedTargetUUID)
             else if IndexDef.Type targetDef = ''alias'' then
               (case fillAlias depth env targetName targetSpec_IndexUUID st of
                  None \<Rightarrow> None
                | Some (Inl err) \<Rightarrow> Some (Inl err)
                | Some (Inr st') \<Rightarrow> fillAlias_targets depth env aliasName rest st')
             else if HasPrefix (IndexDef.Type targetDef) ''bleve'' then
               (case bleveIndexAlias env targetName targetSpec_IndexUUID of
                  Inl err \<Rightarrow> Some (Inl err)
                | Inr subAlias \<Rightarrow>
                    fillAlias_targets depth env aliasName rest
                      (st\<lparr>alias' := alias' st @ [subAlias], num := num st + 1\<rparr>))
             else Some (Inl (UnsupportedTargetType (IndexDef.Type targetDef)))))"

text \<open>
  \<open>bleveIndexAliasForUserIndexAlias\<close>: \<open>cfg_ok\<close> says whether the index definitions could
  be read.
\<close>

definition bleveIndexAliasForUserIndexAlias ::
  "nat \<Rightarrow> 'a AliasEnv \<Rightarrow> bool \<Rightarrow> string \<Rightarrow> string \<Rightarrow> (alias_error + 'a list) option" where
  "bleveIndexAliasForUserIndexAlias depth env cfg_ok indexName indexUUID =
     (if \<not> cfg_ok then Some (Inl CouldNotGetIndexDefs)
      else case fillAlias depth env indexName indexUUID \<lparr>alias' = [], num = 0\<rparr> of
             None \<Rightarrow> None
           | Some (Inl err) \<Rightarrow> Some (Inl err)
           | Some (Inr st) \<Rightarrow> Some (Inr (alias' st)))"

text \<open>
  Two aliases that name each other: the parameters of \<open>A\<close> stand for
  \<open>{"targets": {"B": {}}}\<close> and those of \<open>B\<close> for \<open>{"targets": {"A": {}}}\<close>.
\<close>

definition alias_def :: "string \<Rightarrow> string \<Rightarrow> IndexDef" where
  "alias_def name params =
     \<lparr>IndexDef.Type = ''alias'', Name = name, UUID = ''1'', Params = params,
      SourceType = [], SourceName = [], SourceUUID = [], SourceParams = [],
      PlanParams = \<lparr>MaxPartitionsPerPIndex = 0, NumReplicas = 0, PlanFrozen = False\<rparr>\<rparr>"

definition cycle_env :: "string AliasEnv" where
  "cycle_env =
     \<lparr>IndexDefs = [''A'' \<mapsto> alias_def ''A'' ''to B'', ''B'' \<mapsto> alias_def ''B'' ''to A''],
      parseAliasParams = (\<lambda>params. if params = ''to B'' then Some [(''B'', [])]
                                     else if params = ''to A'' then Some [(''A'', [])]
                                     else None),
      bleveIndexAlias = (\<lambda>name uuid. Inr name)\<rparr>"

lemma cycle_never_returns:
  "num st \<le> maxAliasTargets \<Longrightarrow>
   fillAlias depth cycle_env ''A'' [] st = None \<and> fillAlias depth cycle_env ''B'' [] st = None"
proof (induction depth)
  case 0
  then show ?case by simp
next
  case (Suc depth)
  then show ?case
    by (simp add: cycle_env_def alias_def_def)
qed

lemma cycle_query_never_returns:
  "bleveIndexAliasForUserIndexAlias depth cycle_env True ''A'' [] = None"
  "bleveIndexAliasForUserIndexAlias depth cycle_env True ''B'' [] = None"
  using cycle_never_returns [of "\<lparr>alias' = [], num = 0\<rparr>" depth]
  by (simp_all add: bleveIndexAliasForUserIndexAlias_def maxAliasTargets_def)

text \<open>
  A flat alias over engine indexes: every target is an existing index of a type
  beginning with bleve, named without UUID.  The test \<open>num > maxAliasTargets\<close> comes
  before a target is added, so one target more than the ceiling goes through.
\<close>

lemma flat_targets:
  assumes "\<forall>t\<in>set ts. snd t = [] \<and>
             (\<exists>d. IndexDefs env (fst t) = Some d \<and> IndexDef.Type d \<noteq> ''alias'' \<and>
                  HasPrefix (IndexDef.Type d) ''bleve'') \<and>
             bleveIndexAlias env (fst t) [] = Inr (f (fst t))"
      and "num st \<le> maxAliasTargets + 1"
  shows "fillAlias_targets depth env aliasName ts st =
         (if num st + int (length ts) \<le> maxAliasTargets + 1
          then Some (Inr (st\<lparr>alias' := alias' st @ map (\<lambda>t. f (fst t)) ts,
                              num := num st + int (length ts)\<rparr>))
          else Some (Inl TooManyAliasTargets))"
  using assms
proof (induction ts arbitrary: st)
  case Nil
  then show ?case by simp
next
  case (Cons t ts)
  obtain name uuid where t: "t = (name, uuid)" by (cases t)
  from Cons.prems(1) obtain d where d: "uuid = []" "IndexDefs env name = Some d"
    "IndexDef.Type d \<noteq> ''alias''" "HasPrefix (IndexDef.Type d) ''bleve''"
    "bleveIndexAlias env name [] = Inr (f name)"
    by (auto simp: t)
  from Cons.prems(1) have rest: "\<forall>t\<in>set ts. snd t = [] \<and>
             (\<exists>d. IndexDefs env (fst t) = Some d \<and> IndexDef.Type d \<noteq> ''alias'' \<and>
                  HasPrefix (IndexDef.Type d) ''bleve'') \<and>
             bleveIndexAlias env (fst t) [] = Inr (f (fst t))"
    by simp
  show ?case
  proof (cases "num st > maxAliasTargets")
    case True
    then show ?thesis by (simp add: t)
  next
    case False
    let ?st1 = "st\<lparr>alias' := alias' st @ [f name], num := num st + 1\<rparr>"
    from False have n1: "num ?st1 \<le> maxAliasTargets + 1" by simp
    have "fillAlias_targets depth env aliasName (t # ts) st
          = fillAlias_targets depth env aliasName ts ?st1"
      using False d by (simp add: t)
    also have "\<dots> = (if num ?st1 + int (length ts) \<le> maxAliasTargets + 1
          then Some (Inr (?st1\<lparr>alias' := alias' ?st1 @ map (\<lambda>t. f (fst t)) ts,
                              num := num ?st1 + int (length ts)\<rparr>))
          else Some (Inl TooManyAliasTargets))"
      by (rule Cons.IH [OF rest n1])
    finally show ?thesis by (simp add: t add.assoc)
  qed
qed


text \<open>
  An alias \<open>fan\<close> over \<open>maxAliasTargets + 1\<close> engine indexes named \<open>x\<close>, \<open>xx\<close>, ...
\<close>

definition engine_def :: "string \<Rightarrow> IndexDef" where
  "engine_def name = (alias_def name [])\<lparr>IndexDef.Type := ''bleve''\<rparr>"

definition wide_targets :: "(string \<times> string) list" where
  "wide_targets = map (\<lambda>i. (replicate (Suc i) CHR ''x'', [])) [0..<nat (maxAliasTargets + 1)]"

definition wide_env :: "string AliasEnv" where
  "wide_env =
     \<lparr>IndexDefs = (\<lambda>name. if name = ''fan'' then Some (alias_def ''fan'' ''fan'')
                          else if name \<noteq> [] \<and> set name \<subseteq> {CHR ''x''}
                          then Some (engine_def name) else None),
      parseAliasParams = (\<lambda>params. if params = ''fan'' then Some wide_targets else None),
      bleveIndexAlias = (\<lambda>name uuid. Inr name)\<rparr>"

lemma wide_targets_props:
  "length wide_targets = nat (maxAliasTargets + 1)" "distinct (map fst wide_targets)"
proof -
  show "length wide_targets = nat (maxAliasTargets + 1)" by (simp add: wide_targets_def)
  have "inj_on (\<lambda>i. replicate (Suc i) CHR ''x'') {0..<nat (maxAliasTargets + 1)}"
    by (rule inj_onI) (metis length_replicate nat.inject)
  then show "distinct (map fst wide_targets)"
    by (simp add: wide_targets_def comp_def distinct_map)
qed

lemma wide_alias_resolves:
  "fillAlias (Suc depth) wide_env ''fan'' [] \<lparr>alias' = [], num = 0\<rparr>
   = Some (Inr \<lparr>alias' = map fst wide_targets, num = maxAliasTargets + 1\<rparr>)"
proof -
  have t: "\<forall>t\<in>set wide_targets. snd t = [] \<and>
             (\<exists>d. IndexDefs wide_env (fst t) = Some d \<and> IndexDef.Type d \<noteq> ''alias'' \<and>
                  HasPrefix (IndexDef.Type d) ''bleve'') \<and>
             bleveIndexAlias wide_env (fst t) [] = Inr (fst t)"
    by (auto simp: wide_targets_def wide_env_def engine_def_def alias_def_def HasPrefix_def)
  have n: "num \<lparr>alias' = ([]::string list), num = 0\<rparr> \<le> maxAliasTargets + 1"
    by (simp add: maxAliasTargets_def)
  have "fillAlias (Suc depth) wide_env ''fan'' [] \<lparr>alias' = [], num = 0\<rparr>
        = fillAlias_targets depth wide_env ''fan'' wide_targets \<lparr>alias' = [], num = 0\<rparr>"
    by (simp add: wide_env_def alias_def_def)
  also have "\<dots> = Some (Inr \<lparr>alias' = map fst wide_targets, num = maxAliasTargets + 1\<rparr>)"
    unfolding flat_targets [OF t n]
    by (simp add: wide_targets_props(1) maxAliasTargets_def)
  finally show ?thesis .
qed

text \<open>
  Claim C5, on the code.  For the aliases \<open>A\<close> and \<open>B\<close> that name each other, the
  resolution of either is not finished within any nesting of calls: \<open>num\<close> counts engine
  endpoints only, so the test against \<open>maxAliasTargets\<close> never fires and no error is
  returned.  And the alias \<open>fan\<close> resolves, without error, to \<open>maxAliasTargets + 1\<close>
  distinct endpoints.
\<close>

theorem C5_alias_cycle_recurses:
  "bleveIndexAliasForUserIndexAlias depth cycle_env True ''A'' [] = None
   \<and> bleveIndexAliasForUserIndexAlias depth cycle_env True ''B'' [] = None
   \<and> bleveIndexAliasForUserIndexAlias (Suc depth) wide_env True ''fan'' []
       = Some (Inr (map fst wide_targets))
   \<and> int (length (map fst wide_targets)) = maxAliasTargets + 1
   \<and> distinct (map fst wide_targets)"
  using cycle_query_never_returns [of depth] wide_alias_resolves [of depth]
  by (simp add: bleveIndexAliasForUserIndexAlias_def wide_targets_props maxAliasTargets_def)

section \<open>Partition-instance directories (pindex.go)\<close>

definition pindexPathSuffix :: string where
  "pindexPathSuffix = ''.pindex''"

definition os_PathSeparator :: char where
  "os_PathSeparator = CHR ''/''"

definition PIndexPath :: "string \<Rightarrow> string \<Rightarrow> string" where
  "PIndexPath dataDir pindexName =
     dataDir @ [os_PathSeparator] @ pindexName @ pindexPathSuffix"

text \<open>
  \<open>ParsePIndexPath\<close> returns the pair \<open>(pindexName, ok)\<close>; the outer \<open>option\<close> is \<open>None\<close>
  when one of its two slice expressions would panic.
\<close>

definition ParsePIndexPath :: "string \<Rightarrow> string \<Rightarrow> (string \<times> bool) option" where
  "ParsePIndexPath dataDir pindexPath =
     (if \<not> HasSuffix pindexPath pindexPathSuffix then Some ([], False)
      else let prefix = dataDir @ [os_PathSeparator] in
        if \<not> HasPrefix pindexPath prefix then Some ([], False)
        else case slice pindexPath (int (length prefix)) (int (length pindexPath)) of
               None \<Rightarrow> None
             | Some pindexName \<Rightarrow>
                 (case slice pindexName 0
                         (int (length pindexName) - int (length pindexPathSuffix)) of
                    None \<Rightarrow> None
                  | Some pindexName' \<Rightarrow> Some (pindexName', True)))"

subsection \<open>Properties of the path functions\<close>

lemma HasSuffix_iff: "HasSuffix s suffix \<longleftrightarrow> (\<exists>pre. s = pre @ suffix)"
proof
  assume "HasSuffix s suffix"
  then have "s = take (length s - length suffix) s @ suffix"
    by (metis HasSuffix_def append_take_drop_id)
  then show "\<exists>pre. s = pre @ suffix" ..
next
  assume "\<exists>pre. s = pre @ suffix"
  then show "HasSuffix s suffix"
    by (auto simp: HasSuffix_def)
qed

lemma HasPrefix_iff: "HasPrefix s prefix \<longleftrightarrow> (\<exists>rest. s = prefix @ rest)"
proof
  assume "HasPrefix s prefix"
  then have "s = prefix @ drop (length prefix) s"
    by (metis HasPrefix_def append_take_drop_id)
  then show "\<exists>rest. s = prefix @ rest" ..
next
  assume "\<exists>rest. s = prefix @ rest"
  then show "HasPrefix s prefix"
    by (auto simp: HasPrefix_def)
qed

lemma slice_of_nat:
  "lo \<le> hi \<Longrightarrow> hi \<le> length s \<Longrightarrow>
   slice s (int lo) (int hi) = Some (drop lo (take hi s))"
  by (simp add: slice_def)

lemma ParsePIndexPath_PIndexPath:
  "ParsePIndexPath dataDir (PIndexPath dataDir pindexName) = Some (pindexName, True)"
proof -
  have suf: "HasSuffix (PIndexPath dataDir pindexName) pindexPathSuffix"
    unfolding HasSuffix_iff PIndexPath_def
    by (rule exI [of _ "dataDir @ [os_PathSeparator] @ pindexName"]) simp
  have pre: "HasPrefix (PIndexPath dataDir pindexName) (dataDir @ [os_PathSeparator])"
    unfolding HasPrefix_iff PIndexPath_def
    by (rule exI [of _ "pindexName @ pindexPathSuffix"]) simp
  have s1: "slice (PIndexPath dataDir pindexName)
              (int (length (dataDir @ [os_PathSeparator])))
              (int (length (PIndexPath dataDir pindexName)))
            = Some (pindexName @ pindexPathSuffix)"
    by (subst slice_of_nat) (simp_all add: PIndexPath_def)
  have s2: "slice (pindexName @ pindexPathSuffix) 0
              (int (length (pindexName @ pindexPathSuffix)) - int (length pindexPathSuffix))
            = Some pindexName"
    by (simp add: slice_def)
  show ?thesis
    unfolding ParsePIndexPath_def Let_def
    using suf pre s1 s2 by simp
qed

lemma ParsePIndexPath_rejects:
  assumes "\<not> (\<exists>pre. pindexPath = pre @ pindexPathSuffix)
           \<or> \<not> (\<exists>rest. pindexPath = dataDir @ [os_PathSeparator] @ rest)"
  shows "ParsePIndexPath dataDir pindexPath = Some ([], False)"
  using assms
  by (auto simp: ParsePIndexPath_def Let_def HasSuffix_iff HasPrefix_iff)

text \<open>
  Claim C10.  Building a partition directory path and parsing it again gives back the
  partition name with \<open>ok = true\<close>, for every data directory and name; and a path that does
  not end with the suffix \<open>.pindex\<close>, or does not begin with the data directory followed by
  the path separator, is answered with \<open>ok = false\<close>.
\<close>

theorem C10_path_roundtrip:
  "ParsePIndexPath dataDir (PIndexPath dataDir pindexName) = Some (pindexName, True)
   \<and> ((\<not> (\<exists>pre. pindexPath = pre @ pindexPathSuffix)
        \<or> \<not> (\<exists>rest. pindexPath = dataDir @ [os_PathSeparator] @ rest))
       \<longrightarrow> (\<exists>name. ParsePIndexPath dataDir pindexPath = Some (name, False)))"
  using ParsePIndexPath_PIndexPath ParsePIndexPath_rejects by blast

theorem C10_path_roundtrip_witness:
  "ParsePIndexPath ''data'' (PIndexPath ''data'' ''idx_5f_1a'') = Some (''idx_5f_1a'', True)
   \<and> \<not> (\<exists>rest. ''tmp/idx.pindex'' = ''data'' @ [os_PathSeparator] @ rest)
   \<and> (\<exists>name. ParsePIndexPath ''data'' ''tmp/idx.pindex'' = Some (name, False))"
  using C10_path_roundtrip [of "''data''" "''idx_5f_1a''" "''tmp/idx.pindex''"]
  by simp

end
